theory Spec2Isabelle
  imports Complex_Main "HOL-Library.Multiset" "HOL-Library.Log_Nat"
begin

section \<open>Data model (types.ts)\<close>

text \<open>
  The interfaces of \<^verbatim>\<open>types.ts\<close> become records. A field name that two interfaces share
  (\<^verbatim>\<open>id\<close>, \<^verbatim>\<open>players\<close>) or that is a HOL constant gets a suffix naming its interface.

  A JavaScript \<^verbatim>\<open>number\<close> that holds money or points is a rational number; how each
  arithmetic operation rounds is a parameter of the functions that compute with it (see the
  section on number representations). The three counters of a session are commented
  in the source as counts (\<^verbatim>\<open>// Count of buy-ins\<close>): the round starts them at 1, 0 and 0,
  and \<^verbatim>\<open>updateSession\<close> clamps every update at 0 from below, so they are natural numbers.
  A rank is \<^verbatim>\<open>number | null\<close>: an optional integer.
\<close>

record Player =
  id_player :: string
  name :: string
  isDealer :: bool

record PlayerSession =
  playerId :: string
  buyIns :: nat
  rebuys :: nat
  addOns :: nat
  rank :: "int option"

record Table =
  id_table :: int
  players_table :: "string list"

record FinancialConfig =
  buyInCost :: rat
  rebuyCost :: rat
  addOnCost :: rat
  bbqCost :: rat

record Prizes =
  first :: rat
  second :: rat
  third :: rat

record PlayerBalance =
  playerId_balance :: string
  totalPaid :: rat
  prizeReceived :: rat
  bbqShare :: rat
  netBalance :: rat

record FinancialResult =
  grossTotal :: rat
  adminTax :: rat
  mainEventPot :: rat
  netPrizePool :: rat
  prizes :: Prizes
  roundingAdjustment :: rat
  playerBalances :: "PlayerBalance list"

text \<open>\<^verbatim>\<open>keyof PlayerSession\<close>, the second argument of \<^verbatim>\<open>updateSession\<close>.\<close>

datatype SessionField = F_playerId | F_buyIns | F_rebuys | F_addOns | F_rank

datatype GamePhase = REBUYS_OPEN | ADDONS_OPEN | FREEZEOUT

datatype Tab = SETUP | GAME | FINANCE | RANKING | SPECS

section \<open>The session ledger (the handlers of the App component)\<close>

text \<open>
  Each handler passes a function \<^verbatim>\<open>prev => prev.map(...)\<close> to \<^verbatim>\<open>setGameSessions\<close>; the model
  is that function, from the session list to the new session list.
\<close>

text \<open>
  \<^verbatim>\<open>updateSession\<close>, the body of the \<^verbatim>\<open>map\<close> callback. A session of another player is
  returned as it is. Otherwise the field is read: a number gets \<^verbatim>\<open>val + delta\<close>, clamped to
  \<open>[0, 1]\<close> for \<^verbatim>\<open>addOns\<close> and to \<open>\<ge> 0\<close> for every other field; a value that is not a
  number (the \<^verbatim>\<open>playerId\<close> string, a \<^verbatim>\<open>null\<close> rank) leaves the session as it is.
\<close>

definition updateOne :: "string \<Rightarrow> SessionField \<Rightarrow> int \<Rightarrow> PlayerSession \<Rightarrow> PlayerSession" where
  "updateOne pid field delta s =
     (if playerId s \<noteq> pid then s
      else case field of
        F_playerId \<Rightarrow> s
      | F_buyIns \<Rightarrow> s\<lparr>buyIns := nat (max 0 (int (buyIns s) + delta))\<rparr>
      | F_rebuys \<Rightarrow> s\<lparr>rebuys := nat (max 0 (int (rebuys s) + delta))\<rparr>
      | F_addOns \<Rightarrow> s\<lparr>addOns := nat (max 0 (min 1 (int (addOns s) + delta)))\<rparr>
      | F_rank \<Rightarrow> (case rank s of
                     None \<Rightarrow> s
                   | Some r \<Rightarrow> s\<lparr>rank := Some (max 0 (r + delta))\<rparr>))"

definition updateSession ::
  "string \<Rightarrow> SessionField \<Rightarrow> int \<Rightarrow> PlayerSession list \<Rightarrow> PlayerSession list" where
  "updateSession pid field delta prev = map (updateOne pid field delta) prev"

text \<open>
  \<^verbatim>\<open>setRank\<close>: the session of the player gets the rank; any other session that holds the
  rank loses it. The first test wins, as in the source.
\<close>

definition setRankOne :: "string \<Rightarrow> int \<Rightarrow> PlayerSession \<Rightarrow> PlayerSession" where
  "setRankOne pid r s =
     (if playerId s = pid then s\<lparr>rank := Some r\<rparr>
      else if rank s = Some r then s\<lparr>rank := None\<rparr>
      else s)"

definition setRank :: "string \<Rightarrow> int \<Rightarrow> PlayerSession list \<Rightarrow> PlayerSession list" where
  "setRank pid r prev = map (setRankOne pid r) prev"

text \<open>
  \<^verbatim>\<open>handleElimination\<close>. \<open>activeCount\<close> is \<^verbatim>\<open>checkedInIds.size\<close>. The \<^verbatim>\<open>while\<close> loop counts
  down from it while the rank is taken and positive; it ends because the rank decreases
  and the loop stops at 0.
\<close>

definition assignedRanks :: "PlayerSession list \<Rightarrow> int list" where
  "assignedRanks ss = concat (map (\<lambda>s. case rank s of None \<Rightarrow> [] | Some r \<Rightarrow> [r]) ss)"





text \<open>The sessions \<^verbatim>\<open>startRound\<close> creates: one buy-in, nothing else, no rank.\<close>

definition newSession :: "string \<Rightarrow> PlayerSession" where
  "newSession pid = \<lparr>playerId = pid, buyIns = 1, rebuys = 0, addOns = 0, rank = None\<rparr>"

text \<open>Each non-null rank is held by at most one session (by position in the list).\<close>

definition ranksUnique :: "PlayerSession list \<Rightarrow> bool" where
  "ranksUnique ss = distinct (assignedRanks ss)"




section \<open>Number representations\<close>

text \<open>
  The arithmetic of \<^verbatim>\<open>pokerLogic.ts\<close> is written once, with the rounding of the number
  representation as a parameter \<open>rd\<close> applied to the exact result of every operation and to
  every decimal literal:
  \<^item> \<open>exact\<close> rounds nothing (real arithmetic, what a fixed-point decimal gives);
  \<^item> \<open>binary64\<close> rounds to the nearest IEEE 754 double, ties to even: the arithmetic of a
    JavaScript \<^verbatim>\<open>number\<close>. Subnormal numbers are covered; a magnitude of \<open>2\<^sup>1\<^sup>0\<^sup>2\<^sup>4\<close> or more
    (\<^verbatim>\<open>Infinity\<close> in JavaScript) and \<^verbatim>\<open>NaN\<close> are outside the model.
\<close>

definition exact :: "rat \<Rightarrow> rat" where
  "exact x = x"

definition pow2 :: "int \<Rightarrow> rat" where
  "pow2 e = (if 0 \<le> e then 2 ^ nat e else 1 / 2 ^ nat (- e))"

text \<open>\<open>\<lfloor>log\<^sub>2 |x|\<rfloor>\<close> for \<open>x \<noteq> 0\<close>, from the bit lengths of numerator and denominator.\<close>

definition ilog2 :: "rat \<Rightarrow> int" where
  "ilog2 x =
     (let a = fst (quotient_of \<bar>x\<bar>); b = snd (quotient_of \<bar>x\<bar>); d = bitlen a - bitlen b
      in if pow2 d \<le> \<bar>x\<bar> then d else d - 1)"

definition roundHalfEven :: "rat \<Rightarrow> int" where
  "roundHalfEven y =
     (let f = \<lfloor>y\<rfloor>; r = y - of_int f
      in if r < 1 / 2 then f else if 1 / 2 < r then f + 1 else if even f then f else f + 1)"

text \<open>
  A double has 53 significant bits: a number in the binade \<open>[2\<^sup>e, 2\<^sup>e\<^sup>+\<^sup>1)\<close> is rounded to a
  multiple of \<open>2\<^sup>e\<^sup>-\<^sup>5\<^sup>2\<close>, and below \<open>2\<^sup>-\<^sup>1\<^sup>0\<^sup>2\<^sup>2\<close> to a multiple of \<open>2\<^sup>-\<^sup>1\<^sup>0\<^sup>7\<^sup>4\<close>.
\<close>

definition binary64 :: "rat \<Rightarrow> rat" where
  "binary64 x =
     (if x = 0 then 0
      else let e = max (ilog2 x) (- 1022); q = pow2 (e - 52)
           in of_int (roundHalfEven (x / q)) * q)"

text \<open>
  \<^verbatim>\<open>Math.round\<close>: the nearest integer, a tie going towards \<open>+\<infinity>\<close>. The result is exact in
  either representation.
\<close>

definition mathRound :: "rat \<Rightarrow> int" where
  "mathRound x = \<lfloor>x + 1 / 2\<rfloor>"

section \<open>Points (pokerLogic.ts, calculatePoints)\<close>

definition calculatePoints :: "(rat \<Rightarrow> rat) \<Rightarrow> rat \<Rightarrow> rat \<Rightarrow> rat" where
  "calculatePoints rd n p =
     (if p \<le> 0 then 0
      else rd (rd (rd (n + 1) - p) + rd (n / p)))"

section \<open>Table draw (pokerLogic.ts, shuffle and drawTables)\<close>

text \<open>
  \<^verbatim>\<open>shuffle\<close> is the Fisher-Yates loop. \<open>rnd k\<close> is the value of the \<open>k\<close>-th call of
  \<^verbatim>\<open>Math.random()\<close>. The random index is computed from the index before it is decremented:
  the product \<^verbatim>\<open>Math.random() * currentIndex\<close> is a product of doubles, rounded to a double,
  and \<^verbatim>\<open>Math.floor\<close> of a double is exact. \<^verbatim>\<open>currentIndex\<close> is at most the length of an
  array, below \<open>2\<^sup>3\<^sup>2\<close>, and is a double as it stands. Then the two cells are swapped.
\<close>

fun shuffleLoop :: "(nat \<Rightarrow> rat) \<Rightarrow> nat \<Rightarrow> 'a list \<Rightarrow> nat \<Rightarrow> 'a list" where
  "shuffleLoop rnd k array 0 = array"
| "shuffleLoop rnd k array (Suc currentIndex) =
     (let randomIndex = nat \<lfloor>binary64 (rnd k * of_nat (Suc currentIndex))\<rfloor>
      in shuffleLoop rnd (Suc k)
           (array[currentIndex := array ! randomIndex, randomIndex := array ! currentIndex])
           currentIndex)"

definition shuffle :: "(nat \<Rightarrow> rat) \<Rightarrow> 'a list \<Rightarrow> 'a list" where
  "shuffle rnd array = shuffleLoop rnd 0 array (length array)"

text \<open>
  What \<^verbatim>\<open>Math.random()\<close> can give: every value is a double (a number that rounding to a
  double leaves as it is) in \<open>[0, 1)\<close>.
\<close>

definition validRandom :: "(nat \<Rightarrow> rat) \<Rightarrow> bool" where
  "validRandom rnd = (\<forall>k. 0 \<le> rnd k \<and> rnd k < 1 \<and> binary64 (rnd k) = rnd k)"

text \<open>
  Two random sources to evaluate the draw with: every call of \<^verbatim>\<open>Math.random()\<close> gives 0, or
  every call gives \<open>0.6666666666666666\<close>, the double just below \<open>2 / 3\<close>, whose product with 3
  is rounded to the double 2.
\<close>

definition zeroRandom :: "nat \<Rightarrow> rat" where
  "zeroRandom k = 0"

definition twoThirdsRandom :: "nat \<Rightarrow> rat" where
  "twoThirdsRandom k = 6004799503160661 / 2 ^ 53"

text \<open>A roster to evaluate the draw with: four players, none of them a dealer.\<close>

definition roster4 :: "Player list" where
  "roster4 =
     [\<lparr>id_player = ''1'', name = ''Ana'', isDealer = False\<rparr>,
      \<lparr>id_player = ''2'', name = ''Bia'', isDealer = False\<rparr>,
      \<lparr>id_player = ''3'', name = ''Caio'', isDealer = False\<rparr>,
      \<lparr>id_player = ''4'', name = ''Davi'', isDealer = False\<rparr>]"

definition newTables :: "nat \<Rightarrow> Table list" where
  "newTables safeNumTables =
     map (\<lambda>i. \<lparr>id_table = int i + 1, players_table = []\<rparr>) [0..<safeNumTables]"

definition pushPlayer :: "string \<Rightarrow> Table \<Rightarrow> Table" where
  "pushPlayer pid t = t\<lparr>players_table := players_table t @ [pid]\<rparr>"

text \<open>The callback of \<^verbatim>\<open>dealers.forEach\<close>, which gets the dealer and its index.\<close>

definition seatDealer :: "nat \<Rightarrow> Table list \<Rightarrow> Player \<times> nat \<Rightarrow> Table list" where
  "seatDealer safeNumTables tables = (\<lambda>(dealer, index).
     let tableIndex = index mod safeNumTables
     in tables[tableIndex := pushPlayer (id_player dealer) (tables ! tableIndex)])"

definition tableSize :: "Table \<Rightarrow> nat" where
  "tableSize t = length (players_table t)"

text \<open>
  The callback of \<^verbatim>\<open>shuffledNonDealers.forEach\<close>. \<^verbatim>\<open>Array.prototype.sort\<close> sorts the
  array of tables in place and is stable, so the order it leaves is the order the next
  call starts from: \<open>sort_key\<close> is the stable sort on the key the comparator subtracts. The
  array always holds \<open>safeNumTables \<ge> 1\<close> tables, so \<^verbatim>\<open>tables[0]\<close> exists.
\<close>

definition seatNonDealer :: "Table list \<Rightarrow> Player \<Rightarrow> Table list" where
  "seatNonDealer tables player =
     (case sort_key tableSize tables of
        [] \<Rightarrow> []
      | t # ts \<Rightarrow> pushPlayer (id_player player) t # ts)"

definition drawTables :: "(nat \<Rightarrow> rat) \<Rightarrow> Player list \<Rightarrow> int \<Rightarrow> Table list" where
  "drawTables rnd players numberOfTables =
     (if players = [] then []
      else
        let dealers = filter isDealer players;
            nonDealers = filter (\<lambda>p. \<not> isDealer p) players;
            safeNumTables = nat (max 1 (min 3 numberOfTables));
            tables0 = newTables safeNumTables;
            tables1 = foldl (seatDealer safeNumTables) tables0 (zip dealers [0..<length dealers]);
            shuffledNonDealers = shuffle rnd nonDealers;
            tables2 = foldl seatNonDealer tables1 shuffledNonDealers
        in sort_key id_table tables2)"

text \<open>
  The array of tables as it stands in \<^verbatim>\<open>drawTables\<close> just before the \<open>j\<close>-th shuffled
  non-dealer (counted from 0) is seated: the dealers are seated, and the first \<open>j\<close>
  non-dealers after them.
\<close>

definition tablesBefore :: "(nat \<Rightarrow> rat) \<Rightarrow> Player list \<Rightarrow> int \<Rightarrow> nat \<Rightarrow> Table list" where
  "tablesBefore rnd roster numberOfTables j =
     (let dealers = filter isDealer roster;
          nonDealers = filter (\<lambda>p. \<not> isDealer p) roster;
          safeNumTables = nat (max 1 (min 3 numberOfTables));
          tables0 = newTables safeNumTables;
          tables1 = foldl (seatDealer safeNumTables) tables0 (zip dealers [0..<length dealers])
      in foldl seatNonDealer tables1 (take j (shuffle rnd nonDealers)))"

text \<open>The sizes of any two tables differ by at most one.\<close>

definition balanced :: "Table list \<Rightarrow> bool" where
  "balanced ts = (\<forall>t \<in> set ts. \<forall>u \<in> set ts. tableSize t \<le> tableSize u + 1)"

text \<open>
  The rule in the words of the specification, for comparison: the player goes to the
  table with the fewest players, and among tables tied for the fewest to the one with the
  lowest id.
\<close>

definition smallestLowestId :: "Table list \<Rightarrow> Table \<Rightarrow> bool" where
  "smallestLowestId tables t =
     (t \<in> set tables \<and>
      (\<forall>u \<in> set tables. tableSize t < tableSize u \<or>
                          (tableSize t = tableSize u \<and> id_table t \<le> id_table u)))"

section \<open>Settlement (pokerLogic.ts, calculateFinancials)\<close>

definition smartRound :: "(rat \<Rightarrow> rat) \<Rightarrow> rat \<Rightarrow> rat" where
  "smartRound rd val = rd (of_int (mathRound (rd (val / 10))) * 10)"

text \<open>
  One pass of the \<^verbatim>\<open>forEach\<close> that sums the gross: three \<^verbatim>\<open>+=\<close> in a row. A local
  variable that has the name of a field of the result is written with a prime.
\<close>

definition addSession :: "(rat \<Rightarrow> rat) \<Rightarrow> FinancialConfig \<Rightarrow> rat \<Rightarrow> PlayerSession \<Rightarrow> rat" where
  "addSession rd config grossTotal' s =
     (let g1 = rd (grossTotal' + rd (of_nat (buyIns s) * buyInCost config));
          g2 = rd (g1 + rd (of_nat (rebuys s) * rebuyCost config))
      in rd (g2 + rd (of_nat (addOns s) * addOnCost config)))"

definition playerBalance ::
  "(rat \<Rightarrow> rat) \<Rightarrow> FinancialConfig \<Rightarrow> Prizes \<Rightarrow> rat \<Rightarrow> PlayerSession \<Rightarrow> PlayerBalance" where
  "playerBalance rd config finalPrizes bbqPerPerson s =
     (let totalCost = rd (rd (rd (of_nat (buyIns s) * buyInCost config) +
                              rd (of_nat (rebuys s) * rebuyCost config)) +
                          rd (of_nat (addOns s) * addOnCost config));
          prize1 = (if rank s = Some 1 then first finalPrizes else 0);
          prize2 = (if rank s = Some 2 then second finalPrizes else prize1);
          prize = (if rank s = Some 3 then third finalPrizes else prize2);
          netBalance' = rd (rd (prize - totalCost) - bbqPerPerson)
      in \<lparr>playerId_balance = playerId s, totalPaid = totalCost, prizeReceived = prize,
          bbqShare = bbqPerPerson, netBalance = netBalance'\<rparr>)"

definition calculateFinancials ::
  "(rat \<Rightarrow> rat) \<Rightarrow> PlayerSession list \<Rightarrow> FinancialConfig \<Rightarrow> FinancialResult" where
  "calculateFinancials rd sessions config =
     (let grossTotal' = foldl (addSession rd config) 0 sessions;
          adminTax' = rd (grossTotal' * rd (15 / 100));
          mainEventPot' = rd (grossTotal' * rd (5 / 100));
          netPrizePool' = rd (rd (grossTotal' - adminTax') - mainEventPot');
          rawFirst = rd (netPrizePool' * rd (50 / 100));
          rawSecond = rd (netPrizePool' * rd (30 / 100));
          rawThird = rd (netPrizePool' * rd (20 / 100));
          finalPrizes = \<lparr>first = smartRound rd rawFirst, second = smartRound rd rawSecond,
                         third = smartRound rd rawThird\<rparr>;
          totalPaidOut = rd (rd (first finalPrizes + second finalPrizes) + third finalPrizes);
          roundingAdjustment' = rd (netPrizePool' - totalPaidOut);
          finalAdminTax = rd (adminTax' + roundingAdjustment');
          activePlayerCount = length sessions;
          bbqPerPerson = (if activePlayerCount > 0
                          then rd (bbqCost config / of_nat activePlayerCount) else 0)
      in \<lparr>grossTotal = grossTotal', adminTax = finalAdminTax, mainEventPot = mainEventPot',
          netPrizePool = netPrizePool', prizes = finalPrizes,
          roundingAdjustment = roundingAdjustment',
          playerBalances = map (playerBalance rd config finalPrizes bbqPerPerson) sessions\<rparr>)"

text \<open>\<^verbatim>\<open>INITIAL_CONFIG\<close> of the App component, and a configuration with a buy-in of 3.\<close>

definition INITIAL_CONFIG :: FinancialConfig where
  "INITIAL_CONFIG = \<lparr>buyInCost = 50, rebuyCost = 50, addOnCost = 50, bbqCost = 300\<rparr>"

definition config3 :: FinancialConfig where
  "config3 = \<lparr>buyInCost = 3, rebuyCost = 50, addOnCost = 50, bbqCost = 300\<rparr>"

text \<open>
  Three configurations to evaluate the settlement with: a buy-in of \<open>156.25\<close>, with which
  two buy-ins give raw shares of 125, 75 and 50; a buy-in of \<open>2\<^sup>5\<^sup>6\<close>; and a buy-in of
  \<open>15.624999999999998\<close>, the double \<open>8796093022207999 / 2\<^sup>4\<^sup>9\<close>.
\<close>

definition tieConfig :: FinancialConfig where
  "tieConfig = \<lparr>buyInCost = 625 / 4, rebuyCost = 50, addOnCost = 50, bbqCost = 300\<rparr>"

definition hugeConfig :: FinancialConfig where
  "hugeConfig = \<lparr>buyInCost = 2 ^ 56, rebuyCost = 50, addOnCost = 50, bbqCost = 300\<rparr>"

definition edgeConfig :: FinancialConfig where
  "edgeConfig =
     \<lparr>buyInCost = 8796093022207999 / 2 ^ 49, rebuyCost = 50, addOnCost = 50, bbqCost = 300\<rparr>"

text \<open>
  The rounding rule in the words of the specification, for comparison: the nearest
  multiple of 10, a value half way between two multiples going away from zero.
\<close>

definition nearestTenHalfAway :: "rat \<Rightarrow> rat" where
  "nearestTenHalfAway x = sgn x * 10 * of_int \<lfloor>\<bar>x\<bar> / 10 + 1 / 2\<rfloor>"

section \<open>Starting a round (the App component)\<close>

text \<open>
  The part of the component's state that \<^verbatim>\<open>startRound\<close> reads or writes, and the financial
  configuration.
\<close>

record App =
  activeTab :: Tab
  players :: "Player list"
  checkedInIds :: "string set"
  numTables :: int
  gameSessions :: "PlayerSession list"
  tables :: "Table list"
  config :: FinancialConfig
  gamePhase :: GamePhase

definition startRound :: "(nat \<Rightarrow> rat) \<Rightarrow> App \<Rightarrow> App" where
  "startRound rnd app =
     (let activePlayers = filter (\<lambda>p. id_player p \<in> checkedInIds app) (players app);
          drawnTables = drawTables rnd activePlayers (numTables app);
          sessions = map (\<lambda>p. newSession (id_player p)) activePlayers
      in app\<lparr>tables := drawnTables, gameSessions := sessions, gamePhase := REBUYS_OPEN,
             activeTab := GAME\<rparr>)"

text \<open>
  The button that starts the round: \<^verbatim>\<open>onClick={startRound}\<close> with
  \<^verbatim>\<open>disabled={checkedInIds.size < 2}\<close>. A click on a disabled button runs no handler.
\<close>

definition clickStartRound :: "(nat \<Rightarrow> rat) \<Rightarrow> App \<Rightarrow> App" where
  "clickStartRound rnd app =
     (if card (checkedInIds app) < 2 then app else startRound rnd app)"

text \<open>The component on the setup tab with one player registered and checked in.\<close>

definition lonePlayerApp :: App where
  "lonePlayerApp =
     \<lparr>activeTab = SETUP,
      players = [\<lparr>id_player = ''1'', name = ''Ana'', isDealer = False\<rparr>],
      checkedInIds = {''1''}, numTables = 1, gameSessions = [], tables = [],
      config = INITIAL_CONFIG, gamePhase = REBUYS_OPEN\<rparr>"


section \<open>Properties of the session ledger\<close>

lemma updateOne_other: "playerId s \<noteq> pid \<Longrightarrow> updateOne pid field delta s = s"
  by (simp add: updateOne_def)

lemma updateSession_length: "length (updateSession pid field delta ss) = length ss"
  by (simp add: updateSession_def)

text \<open>
  Claim C10. \<^verbatim>\<open>updateSession(playerId, field, delta)\<close> with \<open>field\<close> one of \<^verbatim>\<open>rebuys\<close> and
  \<^verbatim>\<open>addOns\<close> keeps the length of the list; a session of another player is unchanged; in
  every session the player id, the buy-ins, the rank and the counter that was not named
  are unchanged; in a session of the player the named counter becomes \<open>val + delta\<close>
  clamped to \<open>\<ge> 0\<close> (rebuys) or to \<open>[0, 1]\<close> (add-ons).
\<close>

theorem updateSession_frame:
  "field \<in> {F_rebuys, F_addOns} \<Longrightarrow>
   length (updateSession pid field delta ss) = length ss \<and>
   (\<forall>i < length ss.
      let s = ss ! i; s' = updateSession pid field delta ss ! i in
        (playerId s \<noteq> pid \<longrightarrow> s' = s) \<and>
        playerId s' = playerId s \<and> buyIns s' = buyIns s \<and> rank s' = rank s \<and>
        (field = F_rebuys \<longrightarrow> addOns s' = addOns s) \<and>
        (field = F_addOns \<longrightarrow> rebuys s' = rebuys s) \<and>
        (playerId s = pid \<and> field = F_rebuys \<longrightarrow>
           int (rebuys s') = max 0 (int (rebuys s) + delta)) \<and>
        (playerId s = pid \<and> field = F_addOns \<longrightarrow>
           int (addOns s') = max 0 (min 1 (int (addOns s) + delta))))"
  by (auto simp: updateSession_def updateOne_def Let_def)

theorem updateSession_frame_witness:
  "F_addOns \<in> {F_rebuys, F_addOns} \<and>
   updateSession ''a'' F_addOns 5 [newSession ''a'', newSession ''b''] =
     [(newSession ''a'')\<lparr>addOns := 1\<rparr>, newSession ''b'']"
  using updateSession_frame [of F_addOns "''a''" 5 "[newSession ''a'', newSession ''b'']"]
  by (simp add: updateSession_def updateOne_def newSession_def)

lemma assignedRanks_Cons:
  "assignedRanks (s # ss) = (case rank s of None \<Rightarrow> [] | Some r \<Rightarrow> [r]) @ assignedRanks ss"
  by (simp add: assignedRanks_def)

lemma assignedRanks_Nil: "assignedRanks [] = []"
  by (simp add: assignedRanks_def)

lemma setRank_Cons: "setRank pid r (s # ss) = setRankOne pid r s # setRank pid r ss"
  by (simp add: setRank_def)

lemma setRank_unknown_ranks:
  "pid \<notin> playerId ` set ss \<Longrightarrow>
   assignedRanks (setRank pid r ss) = filter (\<lambda>x. x \<noteq> r) (assignedRanks ss)"
  by (induction ss) (auto simp: assignedRanks_Cons setRank_def setRankOne_def assignedRanks_Nil split: option.splits)

lemma setRank_ranks_subset:
  "set (assignedRanks (setRank pid r ss)) \<subseteq> insert r (set (assignedRanks ss))"
  by (induction ss) (auto simp: assignedRanks_Cons setRank_def setRankOne_def assignedRanks_Nil split: option.splits if_splits)

lemma setRank_ranksUnique:
  "distinct (map playerId ss) \<Longrightarrow> ranksUnique ss \<Longrightarrow> ranksUnique (setRank pid r ss)"
proof (induction ss)
  case Nil
  then show ?case by (simp add: setRank_def)
next
  case (Cons s ss)
  have tl: "ranksUnique ss" using Cons.prems(2)
    by (simp add: ranksUnique_def assignedRanks_Cons split: option.splits)
  have dtl: "distinct (map playerId ss)" using Cons.prems(1) by simp
  show ?case
  proof (cases "playerId s = pid")
    case True
    then have "pid \<notin> playerId ` set ss" using Cons.prems(1) by auto
    then have "assignedRanks (setRank pid r ss) = filter (\<lambda>x. x \<noteq> r) (assignedRanks ss)"
      by (rule setRank_unknown_ranks)
    with True tl show ?thesis
      by (simp add: ranksUnique_def setRank_Cons setRankOne_def assignedRanks_Cons)
  next
    case False
    have ih: "ranksUnique (setRank pid r ss)" using Cons.IH dtl tl by simp
    show ?thesis
    proof (cases "rank s")
      case None
      with False ih show ?thesis
        by (simp add: ranksUnique_def setRank_Cons setRankOne_def assignedRanks_Cons)
    next
      case (Some x)
      show ?thesis
      proof (cases "x = r")
        case True
        with Some False ih show ?thesis
          by (simp add: ranksUnique_def setRank_Cons setRankOne_def assignedRanks_Cons)
      next
        case neq: False
        have "x \<notin> set (assignedRanks ss)" using Cons.prems(2) Some
          by (simp add: ranksUnique_def assignedRanks_Cons)
        with neq have "x \<notin> set (assignedRanks (setRank pid r ss))"
          using setRank_ranks_subset [of pid r ss] by auto
        with Some False neq ih show ?thesis
          by (simp add: ranksUnique_def setRank_Cons setRankOne_def assignedRanks_Cons)
      qed
    qed
  qed
qed

text \<open>
  Claim C5. The session list of the app holds one session per checked-in player, and the
  player ids are pairwise distinct (a new player gets the id \<^verbatim>\<open>players.length + 1\<close> and no
  player is ever removed). For such a list in which every non-null rank is held by at most
  one session, after \<^verbatim>\<open>setRank(playerId, rank)\<close> every non-null rank is again held by at most
  one session: the session of the player holds the rank, a session of another player that
  held it is cleared to null, and every other session is unchanged. The call is never
  rejected.
\<close>

theorem setRank_unique:
  "distinct (map playerId ss) \<Longrightarrow> ranksUnique ss \<Longrightarrow>
   ranksUnique (setRank pid r ss) \<and>
   length (setRank pid r ss) = length ss \<and>
   (\<forall>i < length ss.
      let s = ss ! i; s' = setRank pid r ss ! i in
        (playerId s = pid \<longrightarrow> s' = s\<lparr>rank := Some r\<rparr>) \<and>
        (playerId s \<noteq> pid \<and> rank s = Some r \<longrightarrow> s' = s\<lparr>rank := None\<rparr>) \<and>
        (playerId s \<noteq> pid \<and> rank s \<noteq> Some r \<longrightarrow> s' = s))"
  using setRank_ranksUnique [of ss pid r]
  by (simp add: setRank_def setRankOne_def Let_def)

theorem setRank_unique_witness:
  "distinct (map playerId [(newSession ''a'')\<lparr>rank := Some 1\<rparr>, newSession ''b'']) \<and>
   ranksUnique [(newSession ''a'')\<lparr>rank := Some 1\<rparr>, newSession ''b''] \<and>
   ranksUnique (setRank ''b'' 1 [(newSession ''a'')\<lparr>rank := Some 1\<rparr>, newSession ''b'']) \<and>
   setRank ''b'' 1 [(newSession ''a'')\<lparr>rank := Some 1\<rparr>, newSession ''b''] =
     [newSession ''a'', (newSession ''b'')\<lparr>rank := Some 1\<rparr>]"
  using setRank_unique [of "[(newSession ''a'')\<lparr>rank := Some 1\<rparr>, newSession ''b'']" "''b''" 1]
  by (simp add: ranksUnique_def assignedRanks_def setRank_def setRankOne_def newSession_def)

lemma setRank_unknown:
  assumes "pid \<notin> playerId ` set ss"
  shows "setRank pid r ss = map (\<lambda>s. if rank s = Some r then s\<lparr>rank := None\<rparr> else s) ss"
proof -
  have "\<forall>s \<in> set ss. playerId s \<noteq> pid" using assms by auto
  then show ?thesis unfolding setRank_def by (simp add: setRankOne_def)
qed

text \<open>
  Claim C8, amended. For a player id that matches no session, neither operation raises an
  error; \<^verbatim>\<open>updateSession\<close> returns the list unchanged; \<^verbatim>\<open>setRank\<close> gives the rank to no session,
  and returns the list unchanged when no session holds the rank.
\<close>

theorem unknown_player:
  "pid \<notin> playerId ` set ss \<Longrightarrow>
   updateSession pid field delta ss = ss \<and>
   r \<notin> set (assignedRanks (setRank pid r ss)) \<and>
   (r \<notin> set (assignedRanks ss) \<longrightarrow> setRank pid r ss = ss)"
proof -
  assume u: "pid \<notin> playerId ` set ss"
  then have a: "\<forall>s \<in> set ss. playerId s \<noteq> pid" by auto
  have 1: "updateSession pid field delta ss = ss"
    unfolding updateSession_def using a by (simp add: updateOne_other map_idI)
  have 2: "r \<notin> set (assignedRanks (setRank pid r ss))"
    unfolding setRank_unknown [OF u] by (auto simp: assignedRanks_def split: option.splits)
  have 3: "r \<notin> set (assignedRanks ss) \<longrightarrow> setRank pid r ss = ss"
  proof
    assume "r \<notin> set (assignedRanks ss)"
    then have "\<forall>s \<in> set ss. rank s \<noteq> Some r"
      by (auto simp: assignedRanks_def)
    then show "setRank pid r ss = ss"
      unfolding setRank_unknown [OF u] by (simp add: map_idI)
  qed
  from 1 2 3 show ?thesis by simp
qed

text \<open>
  Claim C8 as stated fails for \<^verbatim>\<open>setRank\<close>: it has no test that the player exists, so with
  an unknown player id and rank 1 the session that holds rank 1 loses it.
\<close>

theorem setRank_unknown_counterexample:
  "''zz'' \<notin> playerId ` set [(newSession ''a'')\<lparr>rank := Some 1\<rparr>] \<and>
   setRank ''zz'' 1 [(newSession ''a'')\<lparr>rank := Some 1\<rparr>] = [newSession ''a''] \<and>
   setRank ''zz'' 1 [(newSession ''a'')\<lparr>rank := Some 1\<rparr>] \<noteq> [(newSession ''a'')\<lparr>rank := Some 1\<rparr>]"
  by (simp add: setRank_def setRankOne_def newSession_def)

theorem unknown_player_witness:
  "''zz'' \<notin> playerId ` set [newSession ''a''] \<and>
   updateSession ''zz'' F_rebuys 1 [newSession ''a''] = [newSession ''a''] \<and>
   setRank ''zz'' 1 [newSession ''a''] = [newSession ''a'']"
  using unknown_player [of "''zz''" "[newSession ''a'']" F_rebuys 1 1]
  by (simp add: newSession_def assignedRanks_def)























section \<open>Properties of the number representations\<close>

lemma binary64_examples:
  "binary64 (1 / 10) = 3602879701896397 / 36028797018963968"
  "binary64 (15 / 100) = 5404319552844595 / 36028797018963968"
  "binary64 (2 ^ 53 + 1) = 2 ^ 53"
  "binary64 (2 ^ 53 + 3) = 2 ^ 53 + 4"
  by code_simp+

lemma floor_half: "\<lfloor>1 / 2 :: rat\<rfloor> = 0"
  by (simp add: floor_eq_iff)

lemma pow2_powi: "pow2 e = 2 powi e"
  by (simp add: pow2_def power_int_def power_inverse [symmetric] inverse_eq_divide power_one_over)

lemma pow2_pos: "0 < pow2 e"
  by (simp add: pow2_powi)

lemma pow2_add: "pow2 (a + b) = pow2 a * pow2 b"
  by (simp add: pow2_powi power_int_add)

lemma pow2_diff: "pow2 (a - b) = pow2 a / pow2 b"
  by (simp add: pow2_powi power_int_diff)

lemma pow2_nat: "pow2 (int n) = 2 ^ n"
  by (simp add: pow2_def)

lemma pow2_mono: "a \<le> b \<Longrightarrow> pow2 a \<le> pow2 b"
  by (simp add: pow2_powi power_int_increasing)

lemma pow2_less_cancel: "pow2 a < pow2 b \<Longrightarrow> a < b"
  using pow2_mono [of b a] by (cases "a < b") auto

lemma pow2_tiny: "pow2 (- 1075) \<le> 1"
  using pow2_mono [of "- 1075" 0] by (simp add: pow2_def)

lemma ilog2_bounds:
  assumes "x \<noteq> 0"
  shows "pow2 (ilog2 x) \<le> \<bar>x\<bar> \<and> \<bar>x\<bar> < pow2 (ilog2 x + 1)"
proof -
  obtain a b where q: "quotient_of \<bar>x\<bar> = (a, b)" by (cases "quotient_of \<bar>x\<bar>")
  have b: "0 < b" using q by (rule quotient_of_denom_pos)
  have x: "\<bar>x\<bar> = of_int a / of_int b" using q by (rule quotient_of_div)
  have "0 < \<bar>x\<bar>" using assms by simp
  then have a: "0 < a" unfolding x using b by (simp add: zero_less_divide_iff)
  define la where "la = bitlen a"
  define lb where "lb = bitlen b"
  have la: "1 \<le> la" "2 ^ nat (la - 1) \<le> a" "a < 2 ^ nat la"
    unfolding la_def using bitlen_bounds [OF a] a by (auto simp: bitlen_alt_def)
  have lb: "1 \<le> lb" "2 ^ nat (lb - 1) \<le> b" "b < 2 ^ nat lb"
    unfolding lb_def using bitlen_bounds [OF b] b by (auto simp: bitlen_alt_def)
  have ra: "pow2 (la - 1) \<le> of_int a" "of_int a < pow2 la"
  proof -
    have "(of_int (2 ^ nat (la - 1)) :: rat) \<le> of_int a" using la(2) by (simp only: of_int_le_iff)
    then show "pow2 (la - 1) \<le> of_int a" using la(1) by (simp add: pow2_def)
    have "(of_int a :: rat) < of_int (2 ^ nat la)" using la(3) by (simp only: of_int_less_iff)
    then show "of_int a < pow2 la" using la(1) by (simp add: pow2_def)
  qed
  have rb: "pow2 (lb - 1) \<le> of_int b" "of_int b < pow2 lb"
  proof -
    have "(of_int (2 ^ nat (lb - 1)) :: rat) \<le> of_int b" using lb(2) by (simp only: of_int_le_iff)
    then show "pow2 (lb - 1) \<le> of_int b" using lb(1) by (simp add: pow2_def)
    have "(of_int b :: rat) < of_int (2 ^ nat lb)" using lb(3) by (simp only: of_int_less_iff)
    then show "of_int b < pow2 lb" using lb(1) by (simp add: pow2_def)
  qed
  have bpos: "(0::rat) < of_int b" using b by simp
  have up: "\<bar>x\<bar> < pow2 (la - lb + 1)"
  proof -
    have "of_int a < pow2 la" by (rule ra(2))
    also have "pow2 la = pow2 (la - lb + 1) * pow2 (lb - 1)"
      by (simp add: pow2_add [symmetric])
    also have "\<dots> \<le> pow2 (la - lb + 1) * of_int b"
      using rb(1) pow2_pos [of "la - lb + 1"] by (simp add: mult_left_mono)
    finally show ?thesis unfolding x using bpos by (simp add: pos_divide_less_eq)
  qed
  have lo: "pow2 (la - lb - 1) < \<bar>x\<bar>"
  proof -
    have "pow2 (la - lb - 1) * of_int b < pow2 (la - lb - 1) * pow2 lb"
      using rb(2) pow2_pos [of "la - lb - 1"] by (simp add: mult_strict_left_mono)
    also have "\<dots> = pow2 (la - 1)" by (simp add: pow2_add [symmetric])
    also have "\<dots> \<le> of_int a" by (rule ra(1))
    finally show ?thesis unfolding x using bpos by (simp add: pos_less_divide_eq)
  qed
  show ?thesis
  proof (cases "pow2 (la - lb) \<le> \<bar>x\<bar>")
    case True
    then have "ilog2 x = la - lb"
      by (simp add: ilog2_def q la_def lb_def Let_def)
    with True up show ?thesis by simp
  next
    case False
    then have "ilog2 x = la - lb - 1"
      by (simp add: ilog2_def q la_def lb_def Let_def)
    with False lo show ?thesis by simp
  qed
qed

lemma roundHalfEven_error: "\<bar>of_int (roundHalfEven y) - y\<bar> \<le> 1 / 2"
proof -
  define r where "r = y - of_int \<lfloor>y\<rfloor>"
  have r: "0 \<le> r" "r < 1" unfolding r_def by linarith+
  have y: "y = of_int \<lfloor>y\<rfloor> + r" unfolding r_def by simp
  have "roundHalfEven y = \<lfloor>y\<rfloor> \<and> r \<le> 1 / 2 \<or> roundHalfEven y = \<lfloor>y\<rfloor> + 1 \<and> 1 / 2 \<le> r"
    unfolding roundHalfEven_def Let_def r_def [symmetric] by auto
  then show ?thesis
  proof
    assume a: "roundHalfEven y = \<lfloor>y\<rfloor> \<and> r \<le> 1 / 2"
    then have "of_int (roundHalfEven y) - y = - r" using y by simp
    with a r show ?thesis by simp
  next
    assume a: "roundHalfEven y = \<lfloor>y\<rfloor> + 1 \<and> 1 / 2 \<le> r"
    then have "of_int (roundHalfEven y) - y = 1 - r" using y by simp
    with a r show ?thesis by simp
  qed
qed

lemma roundHalfEven_of_int: "roundHalfEven (of_int k) = k"
  by (simp add: roundHalfEven_def)

lemma binary64_error:
  "\<bar>binary64 x - x\<bar> \<le> pow2 (max (ilog2 x) (- 1022) - 53)"
proof (cases "x = 0")
  case True
  then show ?thesis using pow2_pos [of "max (ilog2 x) (- 1022) - 53"] by (simp add: binary64_def)
next
  case False
  define e where "e = max (ilog2 x) (- 1022)"
  define q where "q = pow2 (e - 52)"
  have q: "0 < q" unfolding q_def by (rule pow2_pos)
  have b: "binary64 x = of_int (roundHalfEven (x / q)) * q"
    using False by (simp add: binary64_def Let_def e_def q_def)
  have "\<bar>binary64 x - x\<bar> = \<bar>of_int (roundHalfEven (x / q)) - x / q\<bar> * q"
  proof -
    have "binary64 x - x = (of_int (roundHalfEven (x / q)) - x / q) * q"
      unfolding b using q by (simp add: algebra_simps)
    then show ?thesis using q by (simp add: abs_mult)
  qed
  also have "\<dots> \<le> (1 / 2) * q"
    using roundHalfEven_error [of "x / q"] q by (simp add: mult_right_mono)
  also have "\<dots> = pow2 (e - 53)"
  proof -
    have "pow2 (e - 52) = pow2 (e - 53) * pow2 1" by (simp add: pow2_add [symmetric])
    then show ?thesis unfolding q_def by (simp add: pow2_def)
  qed
  finally show ?thesis unfolding e_def .
qed

lemma binary64_relative_error:
  assumes "pow2 (- 1022) \<le> \<bar>x\<bar>"
  shows "\<bar>binary64 x - x\<bar> \<le> \<bar>x\<bar> / 2 ^ 53"
proof -
  have nz: "x \<noteq> 0" using assms pow2_pos [of "- 1022"] by auto
  have "pow2 (- 1022) < pow2 (ilog2 x + 1)"
    using ilog2_bounds [OF nz] assms by simp
  then have "- 1022 \<le> ilog2 x" using pow2_less_cancel by fastforce
  then have "max (ilog2 x) (- 1022) = ilog2 x" by simp
  then have "\<bar>binary64 x - x\<bar> \<le> pow2 (ilog2 x - 53)"
    using binary64_error [of x] by simp
  also have "\<dots> = pow2 (ilog2 x) / 2 ^ 53"
  proof -
    have "pow2 53 = 2 ^ 53" by (simp add: pow2_def)
    then show ?thesis by (simp only: pow2_diff)
  qed
  also have "\<dots> \<le> \<bar>x\<bar> / 2 ^ 53"
    using ilog2_bounds [OF nz] by (simp add: divide_right_mono)
  finally show ?thesis .
qed

lemma binary64_error_abs: "\<bar>binary64 y - y\<bar> \<le> \<bar>y\<bar> / 2 ^ 53 + pow2 (- 1075)"
proof (cases "pow2 (- 1022) \<le> \<bar>y\<bar>")
  case True
  then show ?thesis
    using binary64_relative_error [OF True] pow2_pos [of "- 1075"] by linarith
next
  case False
  show ?thesis
  proof (cases "y = 0")
    case True
    then show ?thesis using pow2_pos [of "- 1075"] by (simp add: binary64_def)
  next
    case nz: False
    have "pow2 (ilog2 y) < pow2 (- 1022)" using False ilog2_bounds [OF nz] by simp
    then have "ilog2 y < - 1022" by (rule pow2_less_cancel)
    then have "max (ilog2 y) (- 1022) - 53 = - 1075" by simp
    then have "\<bar>binary64 y - y\<bar> \<le> pow2 (- 1075)" using binary64_error [of y] by simp
    moreover have "0 \<le> \<bar>y\<bar> / 2 ^ 53" by simp
    ultimately show ?thesis by linarith
  qed
qed

lemma binary64_abs: "\<bar>y\<bar> \<le> B \<Longrightarrow> \<bar>binary64 y\<bar> \<le> 2 * B + 1"
proof -
  assume b: "\<bar>y\<bar> \<le> B"
  define Y where "Y = \<bar>y\<bar>"
  define E where "E = \<bar>binary64 y - y\<bar>"
  have "E \<le> Y / 2 ^ 53 + pow2 (- 1075)" unfolding E_def Y_def by (rule binary64_error_abs)
  moreover have "Y / 2 ^ 53 \<le> Y" unfolding Y_def by simp
  moreover have "\<bar>binary64 y\<bar> \<le> Y + E" unfolding E_def Y_def by simp
  moreover have "Y \<le> B" unfolding Y_def by (rule b)
  ultimately show ?thesis using pow2_tiny by linarith
qed

lemma binary64_of_int:
  assumes "\<bar>m\<bar> < 2 ^ 53"
  shows "binary64 (of_int m) = of_int m"
proof (cases "m = 0")
  case True
  then show ?thesis by (simp add: binary64_def)
next
  case False
  let ?x = "of_int m :: rat"
  have nz: "?x \<noteq> 0" using False by simp
  define e where "e = ilog2 ?x"
  have bd: "pow2 e \<le> \<bar>?x\<bar>" "\<bar>?x\<bar> < pow2 (e + 1)"
    unfolding e_def using ilog2_bounds [OF nz] by simp_all
  have "1 \<le> \<bar>m\<bar>" using False by simp
  then have "(1::rat) \<le> \<bar>?x\<bar>" by (metis of_int_abs of_int_1_le_iff)
  then have "pow2 0 < pow2 (e + 1)" using bd(2) by (simp add: pow2_def)
  then have e0: "0 \<le> e" using pow2_less_cancel by fastforce
  have "\<bar>?x\<bar> < pow2 53"
  proof -
    have "(of_int \<bar>m\<bar> :: rat) < of_int (2 ^ 53)" using assms by (simp only: of_int_less_iff)
    then show ?thesis by (simp add: pow2_def)
  qed
  then have "pow2 e < pow2 53" using bd(1) by simp
  then have e52: "e \<le> 52" using pow2_less_cancel by fastforce
  have mx: "max e (- 1022) = e" using e0 by simp
  have q: "pow2 (e - 52) = 1 / 2 ^ nat (52 - e)"
    using e52 by (cases "e = 52") (simp_all add: pow2_def)
  have "?x / pow2 (e - 52) = of_int (m * 2 ^ nat (52 - e))"
    unfolding q by simp
  then have "roundHalfEven (?x / pow2 (e - 52)) = m * 2 ^ nat (52 - e)"
    by (simp only: roundHalfEven_of_int)
  then have "binary64 ?x = of_int (m * 2 ^ nat (52 - e)) * pow2 (e - 52)"
    using nz by (simp add: binary64_def Let_def e_def [symmetric] mx)
  also have "\<dots> = ?x" unfolding q by simp
  finally show ?thesis .
qed

lemma binary64_literals:
  "\<bar>binary64 (15 / 100)\<bar> \<le> 16 / 100" "\<bar>binary64 (5 / 100)\<bar> \<le> 6 / 100"
  "\<bar>binary64 (50 / 100)\<bar> \<le> 51 / 100" "\<bar>binary64 (30 / 100)\<bar> \<le> 31 / 100"
  "\<bar>binary64 (20 / 100)\<bar> \<le> 21 / 100"
  by code_simp+

lemma mathRound_abs: "\<bar>of_int (mathRound x) :: rat\<bar> \<le> \<bar>x\<bar> + 1 / 2"
proof -
  have "of_int \<lfloor>x + 1 / 2\<rfloor> \<le> x + 1 / 2" "x + 1 / 2 < of_int \<lfloor>x + 1 / 2\<rfloor> + 1"
    by linarith+
  then show ?thesis unfolding mathRound_def by (simp add: abs_if) linarith
qed

lemma mathRound_near: "\<bar>of_int (mathRound y) - y\<bar> \<le> 1 / 2"
proof -
  define K :: rat where "K = of_int \<lfloor>y + 1 / 2\<rfloor>"
  have "K \<le> y + 1 / 2" "y + 1 / 2 < K + 1" unfolding K_def by linarith+
  then have "\<bar>K - y\<bar> \<le> 1 / 2" by linarith
  then show ?thesis unfolding K_def mathRound_def .
qed

lemma roundHalfEven_ge: "of_int n \<le> y \<Longrightarrow> n \<le> roundHalfEven y"
proof -
  assume "of_int n \<le> y"
  then have "n \<le> \<lfloor>y\<rfloor>" by (simp add: le_floor_iff)
  moreover have "\<lfloor>y\<rfloor> \<le> roundHalfEven y" by (simp add: roundHalfEven_def Let_def)
  ultimately show ?thesis by simp
qed

lemma roundHalfEven_le: "y \<le> of_int n \<Longrightarrow> roundHalfEven y \<le> n"
proof (cases "y = of_int \<lfloor>y\<rfloor>")
  case True
  assume "y \<le> of_int n"
  then have "\<lfloor>y\<rfloor> \<le> n" using True by (metis of_int_le_iff)
  moreover have "roundHalfEven y = \<lfloor>y\<rfloor>" using True by (metis roundHalfEven_of_int)
  ultimately show ?thesis by simp
next
  case False
  assume a: "y \<le> of_int n"
  have "of_int \<lfloor>y\<rfloor> \<le> y" by simp
  with False have "of_int \<lfloor>y\<rfloor> < y" by (auto simp: less_le)
  with a have "(of_int \<lfloor>y\<rfloor> :: rat) < of_int n" by simp
  then have "\<lfloor>y\<rfloor> < n" by (simp only: of_int_less_iff)
  moreover have "roundHalfEven y \<le> \<lfloor>y\<rfloor> + 1" by (simp add: roundHalfEven_def Let_def)
  ultimately show ?thesis by simp
qed

lemma binary64_nonneg: "0 \<le> x \<Longrightarrow> 0 \<le> binary64 x"
proof (cases "x = 0")
  case True
  then show ?thesis by (simp add: binary64_def)
next
  case False
  assume x: "0 \<le> x"
  define q where "q = pow2 (max (ilog2 x) (- 1022) - 52)"
  have q: "0 < q" unfolding q_def by (rule pow2_pos)
  have "of_int 0 \<le> x / q" using x q by simp
  then have "0 \<le> roundHalfEven (x / q)" by (rule roundHalfEven_ge)
  then show ?thesis using False q by (simp add: binary64_def Let_def q_def [symmetric])
qed

lemma pow2_less: "a < b \<Longrightarrow> pow2 a < pow2 b"
  by (simp add: pow2_powi power_int_strict_increasing)

lemma ilog2_unique:
  assumes "pow2 e \<le> \<bar>x\<bar>" "\<bar>x\<bar> < pow2 (e + 1)"
  shows "ilog2 x = e"
proof -
  have nz: "x \<noteq> 0" using assms(1) pow2_pos [of e] by auto
  have "pow2 (ilog2 x) < pow2 (e + 1)" using ilog2_bounds [OF nz] assms(2) by simp
  then have 1: "ilog2 x < e + 1" by (rule pow2_less_cancel)
  have "pow2 e < pow2 (ilog2 x + 1)" using ilog2_bounds [OF nz] assms(1) by simp
  then have 2: "e < ilog2 x + 1" by (rule pow2_less_cancel)
  from 1 2 show ?thesis by simp
qed

lemma binary64_scaled_strict:
  assumes m: "\<bar>m\<bar> < 2 ^ 53" and k: "- 1074 \<le> k"
  shows "binary64 (of_int m * pow2 k) = of_int m * pow2 k"
proof (cases "m = 0")
  case True
  then show ?thesis by (simp add: binary64_def)
next
  case False
  let ?x = "of_int m :: rat"
  let ?y = "?x * pow2 k"
  have nz: "?x \<noteq> 0" using False by simp
  have ynz: "?y \<noteq> 0" using nz pow2_pos [of k] by simp
  define i where "i = ilog2 ?x"
  have bd: "pow2 i \<le> \<bar>?x\<bar>" "\<bar>?x\<bar> < pow2 (i + 1)"
    unfolding i_def using ilog2_bounds [OF nz] by simp_all
  have "\<bar>?x\<bar> < pow2 53"
  proof -
    have "(of_int \<bar>m\<bar> :: rat) < of_int (2 ^ 53)" using m by (simp only: of_int_less_iff)
    then show ?thesis by (simp add: pow2_def)
  qed
  then have "pow2 i < pow2 53" using bd(1) by simp
  then have i52: "i \<le> 52" using pow2_less_cancel by fastforce
  have ay: "\<bar>?y\<bar> = \<bar>?x\<bar> * pow2 k" using pow2_pos [of k] by (simp add: abs_mult)
  have "ilog2 ?y = i + k"
  proof (rule ilog2_unique)
    show "pow2 (i + k) \<le> \<bar>?y\<bar>"
      unfolding ay pow2_add using bd(1) pow2_pos [of k] by (simp add: mult_right_mono)
    have "\<bar>?x\<bar> * pow2 k < pow2 (i + 1) * pow2 k"
      using bd(2) pow2_pos [of k] by (simp add: mult_strict_right_mono)
    then show "\<bar>?y\<bar> < pow2 (i + k + 1)"
      unfolding ay by (simp add: pow2_add [symmetric] add.commute add.left_commute)
  qed
  then have e: "max (ilog2 ?y) (- 1022) = max (i + k) (- 1022)" by simp
  define e' where "e' = max (i + k) (- 1022)"
  define j where "j = k + 52 - e'"
  have j: "0 \<le> j" unfolding j_def e'_def using i52 k by simp
  have pk: "pow2 k = pow2 j * pow2 (e' - 52)"
    unfolding j_def by (simp add: pow2_add [symmetric])
  have pj: "pow2 j = 2 ^ nat j" using j by (simp add: pow2_def)
  have "?y / pow2 (e' - 52) = of_int (m * 2 ^ nat j)"
    unfolding pk pj using pow2_pos [of "e' - 52"] by simp
  then have "roundHalfEven (?y / pow2 (e' - 52)) = m * 2 ^ nat j"
    by (simp only: roundHalfEven_of_int)
  then have "binary64 ?y = of_int (m * 2 ^ nat j) * pow2 (e' - 52)"
    using ynz unfolding binary64_def Let_def e e'_def [symmetric] by simp
  also have "\<dots> = ?y" unfolding pk pj by simp
  finally show ?thesis .
qed

lemma binary64_scaled:
  assumes m: "\<bar>m\<bar> \<le> 2 ^ 53" and k: "- 1074 \<le> k"
  shows "binary64 (of_int m * pow2 k) = of_int m * pow2 k"
proof (cases "\<bar>m\<bar> < 2 ^ 53")
  case True
  then show ?thesis using k by (rule binary64_scaled_strict)
next
  case False
  with m have "\<bar>m\<bar> = 2 ^ 53" by simp
  then have "m = 2 ^ 53 \<or> m = - (2 ^ 53)" by (simp add: abs_if split: if_splits)
  moreover have "pow2 (k + 53) = pow2 k * 2 ^ 53"
    unfolding pow2_add by (simp add: pow2_def)
  ultimately have "of_int m * pow2 k = of_int (if m < 0 then - 1 else 1) * pow2 (k + 53)"
    by auto
  moreover have "binary64 (of_int (if m < 0 then - 1 else 1) * pow2 (k + 53)) =
      of_int (if m < 0 then - 1 else 1) * pow2 (k + 53)"
    using k by (intro binary64_scaled_strict) auto
  ultimately show ?thesis by simp
qed

lemma binary64_grid:
  assumes "x \<noteq> 0"
  shows "\<bar>roundHalfEven (x / pow2 (max (ilog2 x) (- 1022) - 52))\<bar> \<le> 2 ^ 53"
proof -
  define e where "e = max (ilog2 x) (- 1022)"
  define q where "q = pow2 (e - 52)"
  have q: "0 < q" unfolding q_def by (rule pow2_pos)
  have "\<bar>x\<bar> < pow2 (ilog2 x + 1)" using ilog2_bounds [OF assms] by simp
  also have "\<dots> \<le> pow2 (e + 1)" unfolding e_def by (intro pow2_mono) simp
  also have "\<dots> = pow2 53 * q" unfolding q_def by (simp add: pow2_add [symmetric] add.commute)
  finally have "\<bar>x\<bar> / q < pow2 53" using q by (simp add: pos_divide_less_eq)
  then have "\<bar>x / q\<bar> < 2 ^ 53" using q by (simp add: pow2_def)
  moreover define z where "z = x / q"
  ultimately have "z \<le> 2 ^ 53" "- (2 ^ 53) \<le> z" by linarith+
  then have z: "x / q \<le> of_int (2 ^ 53)" "of_int (- (2 ^ 53)) \<le> x / q"
    unfolding z_def by simp_all
  have "roundHalfEven (x / q) \<le> 2 ^ 53" using z(1) by (rule roundHalfEven_le)
  moreover have "- (2 ^ 53) \<le> roundHalfEven (x / q)" using z(2) by (rule roundHalfEven_ge)
  ultimately show ?thesis unfolding q_def e_def by simp
qed

lemma binary64_idem: "binary64 (binary64 x) = binary64 x"
proof (cases "x = 0")
  case True
  then show ?thesis by (simp add: binary64_def)
next
  case False
  define e where "e = max (ilog2 x) (- 1022)"
  have b: "binary64 x = of_int (roundHalfEven (x / pow2 (e - 52))) * pow2 (e - 52)"
    using False by (simp add: binary64_def Let_def e_def)
  have "- 1074 \<le> e - 52" unfolding e_def by simp
  then show ?thesis
    unfolding b using binary64_grid [OF False] unfolding e_def [symmetric]
    by (intro binary64_scaled)
qed

lemma pow2_53: "pow2 (- 53) = 1 / 2 ^ 53" "pow2 53 = 2 ^ 53"
  by (simp_all add: pow2_def)

lemma pow2_quarter: "e \<le> - 2 \<Longrightarrow> pow2 e \<le> 1 / 4"
  using pow2_mono [of e "- 2"] by (simp add: pow2_def)

lemma double_below_one:
  assumes d: "binary64 r = r" and r0: "0 \<le> r" and r1: "r < 1"
  shows "r \<le> 1 - 1 / 2 ^ 53"
proof (cases "r < 1 / 2")
  case True
  have "(1 / 2 :: rat) \<le> 1 - 1 / 2 ^ 53" by simp
  with True show ?thesis by linarith
next
  case False
  then have h: "1 / 2 \<le> r" by simp
  have il: "ilog2 r = - 1"
    by (rule ilog2_unique) (use h r1 in \<open>simp_all add: pow2_def\<close>)
  have nz: "r \<noteq> 0" using h by auto
  define M where "M = roundHalfEven (r / pow2 (- 53))"
  have "binary64 r = of_int M * pow2 (- 53)"
    using nz by (simp add: binary64_def il Let_def M_def)
  then have r: "r = of_int M / 2 ^ 53" using d by (simp add: pow2_53)
  have "of_int M / 2 ^ 53 < (1::rat)" using r r1 by simp
  then have "(of_int M :: rat) < of_int (2 ^ 53)" by simp
  then have "M < 2 ^ 53" by (simp only: of_int_less_iff)
  then have "M \<le> 2 ^ 53 - 1" by simp
  then have "(of_int M :: rat) \<le> of_int (2 ^ 53 - 1)" by (simp only: of_int_le_iff)
  then have "(of_int M :: rat) / 2 ^ 53 \<le> (2 ^ 53 - 1) / 2 ^ 53"
    by (simp add: divide_right_mono)
  then show ?thesis unfolding r by (simp add: diff_divide_distrib)
qed

lemma binary64_product_below:
  assumes r0: "0 \<le> r" and r1: "r \<le> 1 - 1 / 2 ^ 53" and N: "1 \<le> N"
  shows "binary64 (r * N) < N"
proof -
  define y where "y = r * N"
  define E where "E = \<bar>binary64 y - y\<bar>"
  have y0: "0 \<le> y" unfolding y_def using r0 N by simp
  have y1: "y \<le> (1 - 1 / 2 ^ 53) * N"
    unfolding y_def using r1 N by (intro mult_right_mono) simp_all
  have b: "binary64 y \<le> y + E" unfolding E_def by linarith
  show ?thesis
  proof (cases "pow2 (- 1022) \<le> \<bar>y\<bar>")
    case True
    have "E \<le> \<bar>y\<bar> / 2 ^ 53" unfolding E_def using True by (rule binary64_relative_error)
    then have "E \<le> y / 2 ^ 53" using y0 by simp
    with b have "binary64 y \<le> y * (1 + 1 / 2 ^ 53)" by (simp add: algebra_simps)
    also have "\<dots> \<le> ((1 - 1 / 2 ^ 53) * N) * (1 + 1 / 2 ^ 53)"
      using y1 by (intro mult_right_mono) simp_all
    also have "\<dots> = ((1 - 1 / 2 ^ 53) * (1 + 1 / 2 ^ 53)) * N" by simp
    also have "\<dots> < 1 * N"
      using N by (intro mult_strict_right_mono) simp_all
    finally show ?thesis unfolding y_def by simp
  next
    case False
    then have "\<bar>y\<bar> < pow2 (- 1022)" by simp
    moreover have "pow2 (- 1022) \<le> 1 / 4" by (rule pow2_quarter) simp
    ultimately have ys: "y < 1 / 4" by linarith
    have "E \<le> \<bar>y\<bar> / 2 ^ 53 + pow2 (- 1075)" unfolding E_def by (rule binary64_error_abs)
    moreover have "pow2 (- 1075) \<le> 1 / 4" by (rule pow2_quarter) simp
    moreover have "\<bar>y\<bar> / 2 ^ 53 \<le> \<bar>y\<bar>" by simp
    ultimately have "E \<le> y + 1 / 4" using y0 by linarith
    with b ys have "binary64 y < 1" by linarith
    with N show ?thesis unfolding y_def by linarith
  qed
qed

lemma double_integer_gap:
  assumes d: "binary64 r = r" and r1: "1 \<le> r" and r2: "r < 2 ^ 53" and ne: "r \<noteq> of_int H"
  shows "pow2 (ilog2 r - 52) \<le> \<bar>of_int H - r\<bar>"
proof -
  define e where "e = ilog2 r"
  have nz: "r \<noteq> 0" using r1 by auto
  have bd: "pow2 e \<le> r" "r < pow2 (e + 1)"
    unfolding e_def using ilog2_bounds [OF nz] r1 by simp_all
  have "pow2 0 < pow2 (e + 1)" using bd(2) r1 by (simp add: pow2_def)
  then have e0: "0 \<le> e" using pow2_less_cancel by fastforce
  have "pow2 e < pow2 53" using bd(1) r2 by (simp add: pow2_53)
  then have e52: "e \<le> 52" using pow2_less_cancel by fastforce
  have mx: "max e (- 1022) = e" using e0 by simp
  have q: "pow2 (e - 52) = 1 / 2 ^ nat (52 - e)"
    using e52 by (cases "e = 52") (simp_all add: pow2_def)
  define M where "M = roundHalfEven (r / pow2 (e - 52))"
  have "binary64 r = of_int M * pow2 (e - 52)"
    using nz by (simp add: binary64_def Let_def e_def [symmetric] mx M_def)
  then have r: "r = of_int M * pow2 (e - 52)" using d by simp
  define D where "D = H * 2 ^ nat (52 - e) - M"
  have hr: "of_int H - r = of_int D * pow2 (e - 52)"
    unfolding D_def q by (subst r) (simp add: q algebra_simps diff_divide_distrib)
  have "D \<noteq> 0"
  proof
    assume "D = 0"
    with hr have "of_int H - r = 0" by simp
    with ne show False by simp
  qed
  then have "1 \<le> \<bar>D\<bar>" by simp
  then have "(1::rat) \<le> \<bar>of_int D\<bar>" by (metis of_int_abs of_int_1_le_iff)
  then have "1 * pow2 (e - 52) \<le> \<bar>of_int D\<bar> * pow2 (e - 52)"
    using pow2_pos [of "e - 52"] by (intro mult_right_mono) simp_all
  then show ?thesis
    unfolding e_def [symmetric] hr abs_mult using pow2_pos [of "e - 52"] by simp
qed

lemma mathRound_binary64_tenth:
  assumes d: "binary64 r = r" and r0: "0 \<le> r" and r51: "r \<le> 2 ^ 51"
  shows "mathRound (binary64 (r / 10)) = mathRound (r / 10)"
proof (cases "r < 1")
  case True
  define y where "y = r / 10"
  define E where "E = \<bar>binary64 y - y\<bar>"
  have y: "0 \<le> y" "y < 1 / 10" unfolding y_def using r0 True by simp_all
  have b0: "0 \<le> binary64 y" using y(1) by (rule binary64_nonneg)
  have "E \<le> \<bar>y\<bar> / 2 ^ 53 + pow2 (- 1075)" unfolding E_def by (rule binary64_error_abs)
  moreover have "pow2 (- 1075) \<le> 1 / 4" by (rule pow2_quarter) simp
  moreover have "\<bar>y\<bar> / 2 ^ 53 \<le> \<bar>y\<bar>" by simp
  ultimately have "E \<le> y + 1 / 4" using y(1) by linarith
  moreover have "binary64 y \<le> y + E" unfolding E_def by linarith
  ultimately have b1: "binary64 y < 1 / 2" using y(2) by linarith
  have "\<lfloor>binary64 y + 1 / 2\<rfloor> = 0" using b0 b1 by (simp add: floor_eq_iff)
  moreover have "\<lfloor>y + 1 / 2\<rfloor> = 0" using y by (simp add: floor_eq_iff)
  ultimately show ?thesis unfolding mathRound_def y_def by simp
next
  case False
  then have r1: "1 \<le> r" by simp
  define e where "e = ilog2 r"
  define y where "y = r / 10"
  define k where "k = mathRound y"
  define b where "b = binary64 y"
  define u where "u = pow2 (e - 56)"
  have nz: "r \<noteq> 0" using r1 by auto
  have bd: "pow2 e \<le> r" "r < pow2 (e + 1)"
    unfolding e_def using ilog2_bounds [OF nz] r1 by simp_all
  have "pow2 0 < pow2 (e + 1)" using bd(2) r1 by (simp add: pow2_def)
  then have e0: "0 \<le> e" using pow2_less_cancel by fastforce
  have r53: "r < 2 ^ 53" using r51 by simp
  have u: "0 < u" unfolding u_def by (rule pow2_pos)
  have gap16: "pow2 (e - 52) = 16 * u"
  proof -
    have "pow2 (e - 52) = pow2 (e - 56) * pow2 4" by (simp add: pow2_add [symmetric])
    then show ?thesis unfolding u_def by (simp add: pow2_def)
  qed
  have gap: "16 * u \<le> \<bar>of_int H - r\<bar>" if "r \<noteq> of_int H" for H
    using double_integer_gap [OF d r1 r53 that] unfolding e_def [symmetric] gap16 .
  have ynz: "y \<noteq> 0" unfolding y_def using nz by simp
  have y0: "0 \<le> y" unfolding y_def using r0 by simp
  have err: "\<bar>b - y\<bar> \<le> u"
  proof -
    have "pow2 (e + 1) = pow2 (e - 2) * pow2 3" by (simp add: pow2_add [symmetric] add.commute)
    then have "pow2 (e + 1) = 8 * pow2 (e - 2)" by (simp add: pow2_def)
    with bd(2) have "r < 8 * pow2 (e - 2)" by simp
    then have "y < pow2 (e - 2)" unfolding y_def using r0 by simp
    then have "pow2 (ilog2 y) < pow2 (e - 2)" using ilog2_bounds [OF ynz] y0 by simp
    then have "ilog2 y < e - 2" by (rule pow2_less_cancel)
    then have "max (ilog2 y) (- 1022) - 53 \<le> e - 56" using e0 by simp
    then have "pow2 (max (ilog2 y) (- 1022) - 53) \<le> pow2 (e - 56)" by (rule pow2_mono)
    then show ?thesis unfolding b_def u_def using binary64_error [of y] by simp
  qed
  have k: "of_int k \<le> y + 1 / 2" "y + 1 / 2 < of_int k + 1"
    unfolding k_def mathRound_def by linarith+
  have k0: "0 \<le> k" unfolding k_def mathRound_def using y0 by simp
  have ry: "r = 10 * y" unfolding y_def by simp
  have lower: "of_int k \<le> b + 1 / 2"
  proof (cases "r = of_int (10 * k - 5)")
    case True
    then have yk: "y = of_int (2 * k - 1) * pow2 (- 1)"
      unfolding y_def by (simp add: pow2_def)
    have "of_int k \<le> (2 ^ 51 / 10 + 1 / 2 :: rat)" using k(1) r51 unfolding y_def by simp
    then have "(of_int k :: rat) \<le> of_int (2 ^ 51)" by simp
    then have "k \<le> 2 ^ 51" by (simp only: of_int_le_iff)
    with k0 have "\<bar>2 * k - 1\<bar> \<le> 2 ^ 53" by simp
    then have "binary64 (of_int (2 * k - 1) * pow2 (- 1)) = of_int (2 * k - 1) * pow2 (- 1)"
      by (rule binary64_scaled) simp
    then have "b = y" unfolding b_def yk .
    then show ?thesis unfolding yk by (simp add: pow2_def)
  next
    case False
    show ?thesis
    proof (rule ccontr)
      assume "\<not> of_int k \<le> b + 1 / 2"
      then have c: "b + 1 / 2 < of_int k" by simp
      have "16 * u \<le> \<bar>of_int (10 * k - 5) - r\<bar>" using False by (rule gap)
      moreover have "of_int (10 * k - 5) \<le> r" using k(1) unfolding ry by simp
      ultimately have "16 * u \<le> r - of_int (10 * k - 5)" by simp
      then have "16 * u \<le> 10 * y - 10 * of_int k + 5" unfolding ry by simp
      moreover have "y - b \<le> u" using err by linarith
      ultimately show False using c u by linarith
    qed
  qed
  have upper: "b + 1 / 2 < of_int k + 1"
  proof (rule ccontr)
    assume "\<not> b + 1 / 2 < of_int k + 1"
    then have c: "of_int k + 1 \<le> b + 1 / 2" by simp
    have lt: "r < of_int (10 * k + 5)" using k(2) unfolding ry by simp
    then have "r \<noteq> of_int (10 * k + 5)" by simp
    then have "16 * u \<le> \<bar>of_int (10 * k + 5) - r\<bar>" by (rule gap)
    with lt have "16 * u \<le> of_int (10 * k + 5) - r" by simp
    then have "16 * u \<le> 10 * of_int k + 5 - 10 * y" unfolding ry by simp
    moreover have "b - y \<le> u" using err by linarith
    ultimately show False using c u by linarith
  qed
  have "\<lfloor>b + 1 / 2\<rfloor> = k" using lower upper by (simp add: floor_eq_iff)
  then show ?thesis unfolding mathRound_def b_def y_def k_def mathRound_def .
qed

lemma binary64_subnormal:
  assumes "\<bar>z\<bar> < pow2 (- 1022)"
  shows "binary64 z = of_int (roundHalfEven (z / pow2 (- 1074))) * pow2 (- 1074)"
proof (cases "z = 0")
  case True
  then show ?thesis using roundHalfEven_of_int [of 0] by (simp add: binary64_def)
next
  case False
  have "pow2 (ilog2 z) < pow2 (- 1022)" using assms ilog2_bounds [OF False] by simp
  then have "ilog2 z < - 1022" by (rule pow2_less_cancel)
  then have "max (ilog2 z) (- 1022) = - 1022" by simp
  then show ?thesis using False by (simp add: binary64_def Let_def)
qed


section \<open>Properties of the points formula\<close>

lemma points_binary64:
  "calculatePoints binary64 25 1 = 50"
  "calculatePoints binary64 25 3 = 4409774635133611 / 140737488355328"
  by code_simp+

text \<open>
  Claim C3. In exact arithmetic \<^verbatim>\<open>calculatePoints(n, p)\<close> is \<open>(n + 1) - p + n / p\<close> with the
  division of the rationals (nothing is truncated) when \<open>p > 0\<close>, and 0 when \<open>p \<le> 0\<close>;
  \<^verbatim>\<open>calculatePoints(25, 1)\<close> is 50 and \<^verbatim>\<open>calculatePoints(25, 3)\<close> is \<open>94 / 3 = 31.333\<dots>\<close>, not the
  31 of an integer division. In double arithmetic the two values are 50 and a double
  within \<open>10\<^sup>-\<^sup>1\<^sup>4\<close> of \<open>31.333\<dots>\<close>.
\<close>

theorem calculatePoints_formula:
  "calculatePoints exact n p = (if p \<le> 0 then 0 else (n + 1) - p + n / p) \<and>
   calculatePoints exact 25 1 = 50 \<and>
   calculatePoints exact 25 3 = 94 / 3 \<and>
   calculatePoints exact 25 3 \<noteq> 31 \<and>
   calculatePoints binary64 25 1 = 50 \<and>
   \<bar>calculatePoints binary64 25 3 - 94 / 3\<bar> < 1 / 10 ^ 14"
  by (simp add: points_binary64) (simp add: calculatePoints_def exact_def)


section \<open>Properties of the settlement\<close>

lemma nearestTenHalfAway_multiple: "\<exists>k::int. nearestTenHalfAway x = 10 * of_int k"
proof -
  have "nearestTenHalfAway x = 10 * of_int (\<lfloor>\<bar>x\<bar> / 10 + 1 / 2\<rfloor> * (if x < 0 then - 1 else if x = 0 then 0 else 1))"
    by (simp add: nearestTenHalfAway_def sgn_if)
  then show ?thesis by blast
qed

lemma nearestTenHalfAway_near:
  "\<bar>nearestTenHalfAway x - x\<bar> \<le> 5 \<and>
   (\<bar>nearestTenHalfAway x - x\<bar> = 5 \<longrightarrow> \<bar>x\<bar> < \<bar>nearestTenHalfAway x\<bar>)"
proof -
  define y where "y = \<bar>x\<bar> / 10 + 1 / 2"
  define k where "k = \<lfloor>y\<rfloor>"
  have k1: "of_int k \<le> y" and k2: "y < of_int k + 1"
    unfolding k_def by linarith+
  have ax: "\<bar>x\<bar> = 10 * y - 5" unfolding y_def by simp
  have n: "\<bar>nearestTenHalfAway x\<bar> = 10 * of_int k" 
  proof -
    have "0 \<le> y" unfolding y_def by simp
    then have "0 \<le> k" unfolding k_def by simp
    then show ?thesis
      by (simp add: nearestTenHalfAway_def abs_mult k_def y_def sgn_if floor_half)
  qed
  have d: "\<bar>nearestTenHalfAway x - x\<bar> = \<bar>10 * of_int k - \<bar>x\<bar>\<bar>"
    by (simp add: nearestTenHalfAway_def k_def y_def sgn_if abs_if floor_half)
  have "\<bar>10 * of_int k - \<bar>x\<bar>\<bar> \<le> 5" using k1 k2 ax by (simp add: abs_if)
  moreover have "\<bar>10 * of_int k - \<bar>x\<bar>\<bar> = 5 \<longrightarrow> \<bar>x\<bar> < 10 * of_int k"
    using k1 k2 ax by (simp add: abs_if)
  ultimately show ?thesis using d n by simp
qed

lemma settlement_exact:
  "adminTax (calculateFinancials exact ss c) +
   mainEventPot (calculateFinancials exact ss c) +
   (first (prizes (calculateFinancials exact ss c)) +
    second (prizes (calculateFinancials exact ss c)) +
    third (prizes (calculateFinancials exact ss c))) =
   grossTotal (calculateFinancials exact ss c)"
  by (simp add: calculateFinancials_def exact_def Let_def)

lemma settlement_error_generic:
  fixes rd :: "rat \<Rightarrow> rat" and eps t :: rat
  assumes err: "\<And>y. \<bar>rd y - y\<bar> \<le> eps * \<bar>y\<bar> + t"
    and eps: "0 \<le> eps" "eps \<le> 1" and t: "0 \<le> t" "t \<le> 1"
    and c15: "\<bar>rd (15 / 100)\<bar> \<le> 16 / 100" and c5: "\<bar>rd (5 / 100)\<bar> \<le> 6 / 100"
    and c50: "\<bar>rd (50 / 100)\<bar> \<le> 51 / 100" and c30: "\<bar>rd (30 / 100)\<bar> \<le> 31 / 100"
    and c20: "\<bar>rd (20 / 100)\<bar> \<le> 21 / 100"
  shows "\<bar>adminTax (calculateFinancials rd ss c) + mainEventPot (calculateFinancials rd ss c) +
          (first (prizes (calculateFinancials rd ss c)) +
           second (prizes (calculateFinancials rd ss c)) +
           third (prizes (calculateFinancials rd ss c))) -
          grossTotal (calculateFinancials rd ss c)\<bar>
         \<le> eps * (3000 * \<bar>grossTotal (calculateFinancials rd ss c)\<bar> + 4200) + 6 * t"
proof -
  define g where "g = foldl (addSession rd c) 0 ss"
  define G where "G = \<bar>g\<bar>"
  define a where "a = rd (g * rd (15 / 100))"
  define m where "m = rd (g * rd (5 / 100))"
  define u where "u = rd (g - a)"
  define net where "net = rd (u - m)"
  define p1 where "p1 = smartRound rd (rd (net * rd (50 / 100)))"
  define p2 where "p2 = smartRound rd (rd (net * rd (30 / 100)))"
  define p3 where "p3 = smartRound rd (rd (net * rd (20 / 100)))"
  define v where "v = rd (p1 + p2)"
  define tot where "tot = rd (v + p3)"
  define adj where "adj = rd (net - tot)"
  define fa where "fa = rd (a + adj)"
  have G0: "0 \<le> G" unfolding G_def by simp
  have mag: "\<bar>rd y\<bar> \<le> 2 * B + 1" if "\<bar>y\<bar> \<le> B" for y B
  proof -
    define Y where "Y = \<bar>y\<bar>"
    define E where "E = \<bar>rd y - y\<bar>"
    have "eps * Y \<le> 1 * Y" unfolding Y_def using eps by (intro mult_right_mono) simp_all
    moreover have "E \<le> eps * Y + t" unfolding E_def Y_def by (rule err)
    moreover have "\<bar>rd y\<bar> \<le> Y + E" unfolding E_def Y_def by simp
    moreover have "Y \<le> B" unfolding Y_def by (rule that)
    ultimately show ?thesis using t by linarith
  qed
  have errB: "\<bar>rd y - y\<bar> \<le> eps * B + t" if "\<bar>y\<bar> \<le> B" for y B
  proof -
    have "eps * \<bar>y\<bar> \<le> eps * B" using that eps by (intro mult_left_mono)
    then have "eps * \<bar>y\<bar> + t \<le> eps * B + t" by simp
    with err [of y] show ?thesis by (rule order_trans)
  qed
  have prod: "\<bar>x * k\<bar> \<le> B * K" if "\<bar>x\<bar> \<le> B" "\<bar>k\<bar> \<le> K" for x k B K :: rat
    using that by (simp add: abs_mult mult_mono)
  have sum2: "\<bar>x + y\<bar> \<le> A + B" if "\<bar>x\<bar> \<le> A" "\<bar>y\<bar> \<le> B" for x y A B :: rat
    using that by linarith
  have diff2: "\<bar>x - y\<bar> \<le> A + B" if "\<bar>x\<bar> \<le> A" "\<bar>y\<bar> \<le> B" for x y A B :: rat
    using that by linarith
  have weaken: "\<bar>x\<bar> \<le> B" if "\<bar>x\<bar> \<le> A" "A \<le> B" for x A B :: rat
    using that by simp
  have sr: "\<bar>smartRound rd x\<bar> \<le> 40 * B + 31" if "\<bar>x\<bar> \<le> 10 * B" for x B
  proof -
    have "\<bar>x / 10\<bar> \<le> B" using that by simp
    then have 1: "\<bar>rd (x / 10)\<bar> \<le> 2 * B + 1" by (rule mag)
    have "\<bar>of_int (mathRound (rd (x / 10))) :: rat\<bar> \<le> \<bar>rd (x / 10)\<bar> + 1 / 2"
      by (rule mathRound_abs)
    with 1 have "\<bar>of_int (mathRound (rd (x / 10))) :: rat\<bar> \<le> 2 * B + 3 / 2" by simp
    then have "\<bar>of_int (mathRound (rd (x / 10))) * 10 :: rat\<bar> \<le> 20 * B + 15"
      by (simp add: abs_mult)
    then have "\<bar>rd (of_int (mathRound (rd (x / 10))) * 10)\<bar> \<le> 2 * (20 * B + 15) + 1"
      by (rule mag)
    then show ?thesis unfolding smartRound_def by simp
  qed
  have gG: "\<bar>g\<bar> \<le> G" unfolding G_def by simp
  have Ba: "\<bar>a\<bar> \<le> 32 / 100 * G + 1"
    unfolding a_def using mag [OF prod [OF gG c15]] by simp
  have Bm: "\<bar>m\<bar> \<le> 12 / 100 * G + 1"
    unfolding m_def using mag [OF prod [OF gG c5]] by simp
  have Y4: "\<bar>g - a\<bar> \<le> 2 * G + 1"
    by (rule weaken [OF diff2 [OF gG Ba]]) (use G0 in simp)
  have Bu: "\<bar>u\<bar> \<le> 4 * G + 3" unfolding u_def using mag [OF Y4] by simp
  have Y3: "\<bar>u - m\<bar> \<le> 5 * G + 4"
    by (rule weaken [OF diff2 [OF Bu Bm]]) (use G0 in simp)
  have Bn: "\<bar>net\<bar> \<le> 10 * G + 9" unfolding net_def using mag [OF Y3] by simp
  have r1: "\<bar>rd (net * rd (50 / 100))\<bar> \<le> 10 * (2 * G + 2)"
    by (rule weaken [OF mag [OF prod [OF Bn c50]]]) (use G0 in simp)
  have r2: "\<bar>rd (net * rd (30 / 100))\<bar> \<le> 10 * (2 * G + 2)"
    by (rule weaken [OF mag [OF prod [OF Bn c30]]]) (use G0 in simp)
  have r3: "\<bar>rd (net * rd (20 / 100))\<bar> \<le> 10 * (2 * G + 2)"
    by (rule weaken [OF mag [OF prod [OF Bn c20]]]) (use G0 in simp)
  have Bp: "\<bar>p1\<bar> \<le> 80 * G + 111" "\<bar>p2\<bar> \<le> 80 * G + 111" "\<bar>p3\<bar> \<le> 80 * G + 111"
    unfolding p1_def p2_def p3_def using sr [OF r1] sr [OF r2] sr [OF r3] by simp_all
  have Y6: "\<bar>p1 + p2\<bar> \<le> 160 * G + 222"
    using sum2 [OF Bp(1) Bp(2)] by simp
  have Bv: "\<bar>v\<bar> \<le> 320 * G + 445" unfolding v_def using mag [OF Y6] by simp
  have Y5: "\<bar>v + p3\<bar> \<le> 400 * G + 556"
    using sum2 [OF Bv Bp(3)] by simp
  have Bt: "\<bar>tot\<bar> \<le> 800 * G + 1113" unfolding tot_def using mag [OF Y5] by simp
  have Y2: "\<bar>net - tot\<bar> \<le> 810 * G + 1122"
    using diff2 [OF Bn Bt] by simp
  have Bj: "\<bar>adj\<bar> \<le> 1620 * G + 2245" unfolding adj_def using mag [OF Y2] by simp
  have Y1: "\<bar>a + adj\<bar> \<le> 1621 * G + 2246"
    by (rule weaken [OF sum2 [OF Ba Bj]]) (use G0 in simp)
  have e1: "\<bar>fa - (a + adj)\<bar> \<le> eps * (1621 * G + 2246) + t"
    unfolding fa_def using Y1 by (rule errB)
  have e2: "\<bar>adj - (net - tot)\<bar> \<le> eps * (810 * G + 1122) + t"
    unfolding adj_def using Y2 by (rule errB)
  have e3: "\<bar>net - (u - m)\<bar> \<le> eps * (5 * G + 4) + t"
    unfolding net_def using Y3 by (rule errB)
  have e4: "\<bar>u - (g - a)\<bar> \<le> eps * (2 * G + 1) + t"
    unfolding u_def using Y4 by (rule errB)
  have e5: "\<bar>tot - (v + p3)\<bar> \<le> eps * (400 * G + 556) + t"
    unfolding tot_def using Y5 by (rule errB)
  have e6: "\<bar>v - (p1 + p2)\<bar> \<le> eps * (160 * G + 222) + t"
    unfolding v_def using Y6 by (rule errB)
  define d1 where "d1 = fa - (a + adj)"
  define d2 where "d2 = adj - (net - tot)"
  define d3 where "d3 = net - (u - m)"
  define d4 where "d4 = u - (g - a)"
  define d5 where "d5 = tot - (v + p3)"
  define d6 where "d6 = v - (p1 + p2)"
  have D: "fa + m + (p1 + p2 + p3) - g = d1 + d2 + d3 + d4 - d5 - d6"
    unfolding d1_def d2_def d3_def d4_def d5_def d6_def by simp
  have "\<bar>d1 + d2 + d3 + d4 - d5 - d6\<bar> \<le> \<bar>d1\<bar> + \<bar>d2\<bar> + \<bar>d3\<bar> + \<bar>d4\<bar> + \<bar>d5\<bar> + \<bar>d6\<bar>"
    by linarith
  also have "\<dots> \<le> (eps * (1621 * G + 2246) + t) + (eps * (810 * G + 1122) + t) +
      (eps * (5 * G + 4) + t) + (eps * (2 * G + 1) + t) + (eps * (400 * G + 556) + t) +
      (eps * (160 * G + 222) + t)"
    using e1 e2 e3 e4 e5 e6 unfolding d1_def d2_def d3_def d4_def d5_def d6_def
    by (intro add_mono)
  also have "\<dots> = eps * (2998 * G + 4151) + 6 * t" by (simp add: algebra_simps)
  also have "\<dots> \<le> eps * (3000 * G + 4200) + 6 * t"
  proof -
    have "eps * (2998 * G + 4151) \<le> eps * (3000 * G + 4200)"
      using eps G0 by (intro mult_left_mono) simp_all
    then show ?thesis by simp
  qed
  finally have main: "\<bar>fa + m + (p1 + p2 + p3) - g\<bar> \<le> eps * (3000 * G + 4200) + 6 * t"
    unfolding D .
  have fields:
    "adminTax (calculateFinancials rd ss c) = fa"
    "mainEventPot (calculateFinancials rd ss c) = m"
    "first (prizes (calculateFinancials rd ss c)) = p1"
    "second (prizes (calculateFinancials rd ss c)) = p2"
    "third (prizes (calculateFinancials rd ss c)) = p3"
    "grossTotal (calculateFinancials rd ss c) = g"
    by (simp_all add: calculateFinancials_def Let_def fa_def adj_def tot_def v_def p1_def
        p2_def p3_def net_def u_def m_def a_def g_def)
  show ?thesis unfolding fields using main by (simp add: G_def)
qed

lemma settlement_tolerance_binary64:
  "\<bar>adminTax (calculateFinancials binary64 ss c) +
    mainEventPot (calculateFinancials binary64 ss c) +
    (first (prizes (calculateFinancials binary64 ss c)) +
     second (prizes (calculateFinancials binary64 ss c)) +
     third (prizes (calculateFinancials binary64 ss c))) -
    grossTotal (calculateFinancials binary64 ss c)\<bar>
   \<le> (3000 * \<bar>grossTotal (calculateFinancials binary64 ss c)\<bar> + 4200) / 2 ^ 53 +
       6 * pow2 (- 1075)"
proof -
  have err: "\<bar>binary64 y - y\<bar> \<le> (1 / 2 ^ 53) * \<bar>y\<bar> + pow2 (- 1075)" for y
    using binary64_error_abs [of y] by simp
  have "\<bar>adminTax (calculateFinancials binary64 ss c) +
    mainEventPot (calculateFinancials binary64 ss c) +
    (first (prizes (calculateFinancials binary64 ss c)) +
     second (prizes (calculateFinancials binary64 ss c)) +
     third (prizes (calculateFinancials binary64 ss c))) -
    grossTotal (calculateFinancials binary64 ss c)\<bar>
   \<le> (1 / 2 ^ 53) * (3000 * \<bar>grossTotal (calculateFinancials binary64 ss c)\<bar> + 4200) +
       6 * pow2 (- 1075)"
    by (rule settlement_error_generic [OF err _ _ _ pow2_tiny binary64_literals])
      (simp_all add: less_imp_le [OF pow2_pos])
  then show ?thesis by simp
qed

text \<open>
  Claim C1, amended. For every list of sessions and every cost configuration: in exact
  arithmetic (\<open>rd = exact\<close>, no operation rounds) the settlement satisfies
  \<open>adminTax + mainEventPot + (first + second + third) = grossTotal\<close> exactly, because the
  rounding adjustment added to the admin tax is the net prize pool minus the prizes paid;
  in the double arithmetic of the code (\<open>rd = binary64\<close>, no result overflowing) the two
  sides differ by no more than the rounding errors of the six additions and subtractions
  between them, at most \<open>(3000 |grossTotal| + 4200) / 2\<^sup>5\<^sup>3 + 6 / 2\<^sup>1\<^sup>0\<^sup>7\<^sup>5\<close>.
\<close>

theorem settlement_identity:
  "adminTax (calculateFinancials exact ss c) + mainEventPot (calculateFinancials exact ss c) +
   (first (prizes (calculateFinancials exact ss c)) +
    second (prizes (calculateFinancials exact ss c)) +
    third (prizes (calculateFinancials exact ss c))) =
   grossTotal (calculateFinancials exact ss c) \<and>
   \<bar>adminTax (calculateFinancials binary64 ss c) +
    mainEventPot (calculateFinancials binary64 ss c) +
    (first (prizes (calculateFinancials binary64 ss c)) +
     second (prizes (calculateFinancials binary64 ss c)) +
     third (prizes (calculateFinancials binary64 ss c))) -
    grossTotal (calculateFinancials binary64 ss c)\<bar>
   \<le> (3000 * \<bar>grossTotal (calculateFinancials binary64 ss c)\<bar> + 4200) / 2 ^ 53 +
       6 * pow2 (- 1075)"
proof (rule conjI)
  show "adminTax (calculateFinancials exact ss c) + mainEventPot (calculateFinancials exact ss c) +
   (first (prizes (calculateFinancials exact ss c)) +
    second (prizes (calculateFinancials exact ss c)) +
    third (prizes (calculateFinancials exact ss c))) =
   grossTotal (calculateFinancials exact ss c)"
    by (rule settlement_exact)
  show "\<bar>adminTax (calculateFinancials binary64 ss c) +
    mainEventPot (calculateFinancials binary64 ss c) +
    (first (prizes (calculateFinancials binary64 ss c)) +
     second (prizes (calculateFinancials binary64 ss c)) +
     third (prizes (calculateFinancials binary64 ss c))) -
    grossTotal (calculateFinancials binary64 ss c)\<bar>
   \<le> (3000 * \<bar>grossTotal (calculateFinancials binary64 ss c)\<bar> + 4200) / 2 ^ 53 +
       6 * pow2 (- 1075)"
    by (rule settlement_tolerance_binary64)
qed

lemma financials_config3:
  "calculateFinancials binary64 [newSession ''1'', newSession ''2''] config3 =
     \<lparr>grossTotal = 6, adminTax = 1604407367250739 / 281474976710656,
      mainEventPot = 1351079888211149 / 4503599627370496,
      netPrizePool = 5404319552844595 / 1125899906842624,
      prizes = \<lparr>first = 0, second = 0, third = 0\<rparr>,
      roundingAdjustment = 5404319552844595 / 1125899906842624,
      playerBalances =
        [\<lparr>playerId_balance = ''1'', totalPaid = 3, prizeReceived = 0,
            bbqShare = 150, netBalance = - 153\<rparr>,
         \<lparr>playerId_balance = ''2'', totalPaid = 3, prizeReceived = 0,
            bbqShare = 150, netBalance = - 153\<rparr>]\<rparr>"
  by code_simp

lemma binary64_sum_config3:
  "binary64
     (binary64 (1604407367250739 / 281474976710656 + 1351079888211149 / 4503599627370496) +
      binary64 (binary64 (0 + 0) + 0)) =
   6755399441055743 / 1125899906842624"
  by code_simp

text \<open>
  Claim C1 as stated fails in the arithmetic the code runs in. With IEEE 754 doubles, two
  sessions of one buy-in each and a buy-in of 3 give a gross of 6, a final admin tax of
  \<open>5.699999999999999\<close>, a main event pot of \<open>0.30000000000000004\<close> and prizes of 0: the
  sum of the parts is not 6, neither as the exact sum of the doubles returned nor as
  their sum in double arithmetic (\<open>5.999999999999999\<close>).
\<close>

theorem settlement_identity_binary64_counterexample:
  "grossTotal (calculateFinancials binary64 [newSession ''1'', newSession ''2''] config3) = 6 \<and>
   adminTax (calculateFinancials binary64 [newSession ''1'', newSession ''2''] config3) =
     1604407367250739 / 281474976710656 \<and>
   mainEventPot (calculateFinancials binary64 [newSession ''1'', newSession ''2''] config3) =
     1351079888211149 / 4503599627370496 \<and>
   prizes (calculateFinancials binary64 [newSession ''1'', newSession ''2''] config3) =
     \<lparr>first = 0, second = 0, third = 0\<rparr> \<and>
   adminTax (calculateFinancials binary64 [newSession ''1'', newSession ''2''] config3) +
   mainEventPot (calculateFinancials binary64 [newSession ''1'', newSession ''2''] config3) +
   (first (prizes (calculateFinancials binary64 [newSession ''1'', newSession ''2''] config3)) +
    second (prizes (calculateFinancials binary64 [newSession ''1'', newSession ''2''] config3)) +
    third (prizes (calculateFinancials binary64 [newSession ''1'', newSession ''2''] config3))) \<noteq>
   grossTotal (calculateFinancials binary64 [newSession ''1'', newSession ''2''] config3) \<and>
   binary64
     (binary64
        (adminTax (calculateFinancials binary64 [newSession ''1'', newSession ''2''] config3) +
         mainEventPot (calculateFinancials binary64 [newSession ''1'', newSession ''2''] config3)) +
      binary64
        (binary64
           (first (prizes (calculateFinancials binary64 [newSession ''1'', newSession ''2''] config3)) +
            second (prizes (calculateFinancials binary64 [newSession ''1'', newSession ''2''] config3))) +
         third (prizes (calculateFinancials binary64 [newSession ''1'', newSession ''2''] config3)))) \<noteq>
   grossTotal (calculateFinancials binary64 [newSession ''1'', newSession ''2''] config3)"
  unfolding financials_config3 FinancialResult.select_convs Prizes.select_convs
    binary64_sum_config3
  by simp

lemma smartRound_binary64:
  assumes "\<bar>x\<bar> \<le> 2 ^ 51"
  shows "smartRound binary64 x = 10 * of_int (mathRound (binary64 (x / 10)))"
    and "\<bar>smartRound binary64 x - x\<bar> \<le> 5 + \<bar>x\<bar> / 2 ^ 53 + 10 * pow2 (- 1075)"
proof -
  define k where "k = mathRound (binary64 (x / 10))"
  have "\<bar>x / 10\<bar> \<le> 2 ^ 51 / 10" using assms by simp
  then have 1: "\<bar>binary64 (x / 10)\<bar> \<le> 2 * (2 ^ 51 / 10) + 1" by (rule binary64_abs)
  have "\<bar>of_int k :: rat\<bar> \<le> \<bar>binary64 (x / 10)\<bar> + 1 / 2"
    unfolding k_def by (rule mathRound_abs)
  with 1 have "\<bar>of_int k :: rat\<bar> \<le> 2 * (2 ^ 51 / 10) + 3 / 2" by simp
  then have "\<bar>of_int (k * 10) :: rat\<bar> < 2 ^ 53" by (simp add: abs_mult)
  then have "(of_int \<bar>k * 10\<bar> :: rat) < of_int (2 ^ 53)" by simp
  then have "\<bar>k * 10\<bar> < 2 ^ 53" by (simp only: of_int_less_iff)
  then have "binary64 (of_int (k * 10)) = of_int (k * 10)" by (rule binary64_of_int)
  then show eq: "smartRound binary64 x = 10 * of_int (mathRound (binary64 (x / 10)))"
    unfolding smartRound_def k_def by simp
  define r where "r = binary64 (x / 10)"
  define d where "d = r - x / 10"
  have d: "\<bar>d\<bar> \<le> \<bar>x / 10\<bar> / 2 ^ 53 + pow2 (- 1075)"
    unfolding d_def r_def by (rule binary64_error_abs)
  have kr: "\<bar>of_int k - r\<bar> \<le> 1 / 2"
    unfolding k_def r_def by (rule mathRound_near)
  have "smartRound binary64 x - x = 10 * (of_int k - r) + 10 * d"
    unfolding eq k_def [symmetric] d_def r_def by simp
  then have "\<bar>smartRound binary64 x - x\<bar> = \<bar>10 * (of_int k - r) + 10 * d\<bar>"
    by simp
  also have "\<dots> \<le> \<bar>10 * (of_int k - r)\<bar> + \<bar>10 * d\<bar>"
    by (rule abs_triangle_ineq)
  also have "\<dots> = 10 * \<bar>of_int k - r\<bar> + 10 * \<bar>d\<bar>"
    unfolding abs_mult by simp
  also have "\<dots> \<le> 10 * (1 / 2) + 10 * (\<bar>x / 10\<bar> / 2 ^ 53 + pow2 (- 1075))"
    using kr d by (intro add_mono mult_left_mono) simp_all
  also have "\<dots> = 5 + \<bar>x\<bar> / 2 ^ 53 + 10 * pow2 (- 1075)" by simp
  finally show "\<bar>smartRound binary64 x - x\<bar> \<le> 5 + \<bar>x\<bar> / 2 ^ 53 + 10 * pow2 (- 1075)" .
qed

lemma raw_share_binary64:
  assumes "\<bar>n\<bar> \<le> 2 ^ 49" and "\<bar>binary64 k\<bar> \<le> 51 / 100"
  shows "\<bar>binary64 (n * binary64 k)\<bar> \<le> 2 ^ 51"
proof -
  have "\<bar>n * binary64 k\<bar> \<le> 2 ^ 49 * (51 / 100)"
    unfolding abs_mult using assms by (intro mult_mono) simp_all
  then have "\<bar>binary64 (n * binary64 k)\<bar> \<le> 2 * (2 ^ 49 * (51 / 100)) + 1"
    by (rule binary64_abs)
  then show ?thesis by simp
qed

lemma literals_nonneg:
  "0 \<le> binary64 (15 / 100)" "0 \<le> binary64 (5 / 100)" "0 \<le> binary64 (50 / 100)"
  "0 \<le> binary64 (30 / 100)" "0 \<le> binary64 (20 / 100)"
  by (rule binary64_nonneg, simp)+

lemma netPrizePool_nonneg:
  assumes G: "0 \<le> G" and d: "binary64 G = G"
  shows "0 \<le> binary64 (binary64 (G - binary64 (G * binary64 (15 / 100))) -
                        binary64 (G * binary64 (5 / 100)))"
proof -
  define c15 where "c15 = binary64 (15 / 100)"
  define c5 where "c5 = binary64 (5 / 100)"
  define a where "a = binary64 (G * c15)"
  define m where "m = binary64 (G * c5)"
  define u where "u = binary64 (G - a)"
  have c15: "0 \<le> c15" "c15 \<le> 16 / 100"
    unfolding c15_def using literals_nonneg(1) binary64_literals(1) by simp_all
  have c5: "0 \<le> c5" "c5 \<le> 6 / 100"
    unfolding c5_def using literals_nonneg(2) binary64_literals(2) by simp_all
  have y15: "0 \<le> G * c15" "G * c15 \<le> G * (16 / 100)"
    using G c15 by (simp, intro mult_left_mono)
  have y5: "0 \<le> G * c5" "G * c5 \<le> G * (6 / 100)"
    using G c5 by (simp, intro mult_left_mono)
  have a0: "0 \<le> a" unfolding a_def using y15(1) by (rule binary64_nonneg)
  have m0: "0 \<le> m" unfolding m_def using y5(1) by (rule binary64_nonneg)
  have "0 \<le> u - m" if Gpos: "0 < G"
  proof (cases "pow2 (- 1022) \<le> G")
    case True
    have "pow2 (- 1075) = pow2 (- 1022) * pow2 (- 53)" by (simp add: pow2_add [symmetric])
    also have "\<dots> \<le> G * pow2 (- 53)"
      using True pow2_pos [of "- 53"] by (intro mult_right_mono) simp_all
    also have "\<dots> \<le> G * (1 / 100)"
      using G by (intro mult_left_mono) (simp_all add: pow2_53)
    finally have t: "pow2 (- 1075) \<le> G / 100" by simp
    have err: "\<bar>binary64 y - y\<bar> \<le> Y / 100 + G / 100" if "\<bar>y\<bar> \<le> Y" for y Y
    proof -
      have "\<bar>binary64 y - y\<bar> \<le> \<bar>y\<bar> / 2 ^ 53 + pow2 (- 1075)" by (rule binary64_error_abs)
      moreover have "\<bar>y\<bar> / 2 ^ 53 \<le> \<bar>y\<bar> / 100" by (intro divide_left_mono) simp_all
      ultimately show ?thesis using t that by linarith
    qed
    have "\<bar>G * c15\<bar> \<le> G * (16 / 100)" using y15 by simp
    then have "\<bar>a - G * c15\<bar> \<le> G * (16 / 100) / 100 + G / 100" unfolding a_def by (rule err)
    then have a1: "a \<le> G * (18 / 100)" using y15 by linarith
    have "\<bar>G * c5\<bar> \<le> G * (6 / 100)" using y5 by simp
    then have "\<bar>m - G * c5\<bar> \<le> G * (6 / 100) / 100 + G / 100" unfolding m_def by (rule err)
    then have m1: "m \<le> G * (8 / 100)" using y5 by linarith
    have "\<bar>G - a\<bar> \<le> G" using a0 a1 G by linarith
    then have "\<bar>u - (G - a)\<bar> \<le> G / 100 + G / 100" unfolding u_def by (rule err)
    then have "G * (80 / 100) \<le> u" using a1 by linarith
    with m1 G show ?thesis by linarith
  next
    case False
    then have Gs: "G < pow2 (- 1022)" by simp
    define q where "q = pow2 (- 1074)"
    have q: "0 < q" unfolding q_def by (rule pow2_pos)
    define K where "K = roundHalfEven (G / q)"
    define A where "A = roundHalfEven (G * c15 / q)"
    define M where "M = roundHalfEven (G * c5 / q)"
    have "\<bar>G\<bar> < pow2 (- 1022)" using G Gs by simp
    then have "binary64 G = of_int K * q" unfolding K_def q_def by (rule binary64_subnormal)
    then have GK: "G = of_int K * q" using d by simp
    have "of_int 0 \<le> G / q" using G q by simp
    then have K0: "0 \<le> K" unfolding K_def by (rule roundHalfEven_ge)
    have "\<bar>G * c15\<bar> < pow2 (- 1022)" using y15 G Gs by linarith
    then have aA: "a = of_int A * q" unfolding a_def A_def q_def by (rule binary64_subnormal)
    have "\<bar>G * c5\<bar> < pow2 (- 1022)" using y5 G Gs by linarith
    then have mM: "m = of_int M * q" unfolding m_def M_def q_def by (rule binary64_subnormal)
    have Kq: "G * c / q = of_int K * c" for c using q by (simp add: GK)
    have "\<bar>of_int A - of_int K * c15\<bar> \<le> 1 / 2"
      unfolding A_def Kq by (rule roundHalfEven_error)
    moreover have "of_int K * c15 \<le> of_int K * (16 / 100)"
      using K0 c15 by (intro mult_left_mono) simp_all
    ultimately have A1: "of_int A \<le> of_int K * (16 / 100) + (1 / 2 :: rat)" by linarith
    have "\<bar>of_int M - of_int K * c5\<bar> \<le> 1 / 2"
      unfolding M_def Kq by (rule roundHalfEven_error)
    moreover have "of_int K * c5 \<le> of_int K * (6 / 100)"
      using K0 c5 by (intro mult_left_mono) simp_all
    ultimately have M1: "of_int M \<le> of_int K * (6 / 100) + (1 / 2 :: rat)" by linarith
    have "K \<noteq> 0" using GK Gpos by auto
    with K0 have "1 \<le> K" by simp
    then have Kr: "(1::rat) \<le> of_int K" by simp
    have "(- 1 :: rat) < of_int (K - A)" unfolding of_int_diff using A1 Kr by linarith
    then have "(of_int (- 1) :: rat) < of_int (K - A)" by simp
    then have "- 1 < K - A" by (simp only: of_int_less_iff)
    then have KA: "0 \<le> K - A" by simp
    have ga: "G - a = of_int (K - A) * q" unfolding GK aA by (simp add: algebra_simps)
    have "0 \<le> G - a" unfolding ga using KA q by simp
    then have "\<bar>G - a\<bar> < pow2 (- 1022)" using a0 Gs by linarith
    then have "u = of_int (roundHalfEven ((G - a) / q)) * q"
      unfolding u_def q_def by (rule binary64_subnormal)
    also have "(G - a) / q = of_int (K - A)" unfolding ga using q by simp
    also have "roundHalfEven (of_int (K - A)) = K - A" by (rule roundHalfEven_of_int)
    finally have uK: "u = of_int (K - A) * q" .
    have "(- 1 :: rat) < of_int (K - A - M)" unfolding of_int_diff using A1 M1 Kr by linarith
    then have "(of_int (- 1) :: rat) < of_int (K - A - M)" by simp
    then have "- 1 < K - A - M" by (simp only: of_int_less_iff)
    then have "0 \<le> K - A - M" by simp
    moreover have "u - m = of_int (K - A - M) * q" unfolding uK mM by (simp add: algebra_simps)
    ultimately show ?thesis using q by simp
  qed
  moreover have "u - m = 0" if "G = 0"
    unfolding u_def m_def a_def using that by (simp add: binary64_def)
  ultimately have "0 \<le> u - m" using G by (cases "G = 0") simp_all
  then have "0 \<le> binary64 (u - m)" by (rule binary64_nonneg)
  then show ?thesis unfolding u_def m_def a_def c15_def c5_def .
qed

lemma addSession_binary64:
  assumes "0 \<le> buyInCost c" "0 \<le> rebuyCost c" "0 \<le> addOnCost c" and g: "0 \<le> g"
  shows "0 \<le> addSession binary64 c g s"
    and "binary64 (addSession binary64 c g s) = addSession binary64 c g s"
proof -
  have t: "0 \<le> binary64 (of_nat n * x)" if "0 \<le> x" for n :: nat and x :: rat
    using that by (intro binary64_nonneg) simp
  have s: "0 \<le> binary64 (x + y)" if "0 \<le> x" "0 \<le> y" for x y :: rat
    using that by (intro binary64_nonneg) simp
  show "0 \<le> addSession binary64 c g s"
    unfolding addSession_def Let_def using assms by (intro s t)
  show "binary64 (addSession binary64 c g s) = addSession binary64 c g s"
    unfolding addSession_def Let_def by (rule binary64_idem)
qed

lemma grossTotal_binary64:
  assumes "0 \<le> buyInCost c" "0 \<le> rebuyCost c" "0 \<le> addOnCost c"
  shows "0 \<le> g \<Longrightarrow> binary64 g = g \<Longrightarrow>
    0 \<le> foldl (addSession binary64 c) g ss \<and>
    binary64 (foldl (addSession binary64 c) g ss) = foldl (addSession binary64 c) g ss"
proof (induction ss arbitrary: g)
  case Nil
  then show ?case by simp
next
  case (Cons s ss)
  show ?case
    using Cons.IH [OF addSession_binary64(1) [OF assms Cons.prems(1)]
        addSession_binary64(2) [OF assms Cons.prems(1)]]
    by simp
qed

lemma raw_share_error:
  assumes n: "0 \<le> n" and s: "pow2 (- 1022) \<le> s" "s \<le> 1 / 2"
  shows "\<bar>binary64 (n * binary64 s) - n * s\<bar> \<le> n / 2 ^ 52 + pow2 (- 1075)"
proof -
  define k where "k = binary64 s"
  define E where "E = \<bar>k - s\<bar>"
  have s0: "0 \<le> s" using s(1) pow2_pos [of "- 1022"] by linarith
  have "\<bar>binary64 s - s\<bar> \<le> \<bar>s\<bar> / 2 ^ 53"
    using s(1) s0 by (intro binary64_relative_error) simp
  then have E: "E \<le> s / 2 ^ 53" unfolding E_def k_def using s0 by simp
  have "s / 2 ^ 53 \<le> (1 / 2) / 2 ^ 53" using s(2) by (intro divide_right_mono) simp_all
  with E have E1: "E \<le> 1 / 2 ^ 54" by simp
  have k0: "0 \<le> k" unfolding k_def using s0 by (rule binary64_nonneg)
  have k1: "k \<le> 1 / 2 + 1 / 2 ^ 54" using E1 s(2) unfolding E_def by linarith
  have 1: "\<bar>binary64 (n * k) - n * k\<bar> \<le> \<bar>n * k\<bar> / 2 ^ 53 + pow2 (- 1075)"
    by (rule binary64_error_abs)
  have "n * k \<le> n * (1 / 2 + 1 / 2 ^ 54)" using k1 n by (intro mult_left_mono)
  moreover have "\<bar>n * k\<bar> = n * k" using n k0 by simp
  ultimately have 2: "\<bar>n * k\<bar> / 2 ^ 53 \<le> n * (1 / 2 + 1 / 2 ^ 54) / 2 ^ 53"
    by (simp only: divide_right_mono zero_le_numeral zero_le_power)
  have "\<bar>n * k - n * s\<bar> = n * E"
    unfolding E_def using n by (simp add: abs_mult right_diff_distrib [symmetric])
  also have "\<dots> \<le> n * (1 / 2 ^ 54)" using E1 n by (intro mult_left_mono)
  finally have 3: "\<bar>n * k - n * s\<bar> \<le> n * (1 / 2 ^ 54)" .
  have "\<bar>binary64 (n * k) - n * s\<bar> \<le> \<bar>binary64 (n * k) - n * k\<bar> + \<bar>n * k - n * s\<bar>"
    by linarith
  also have "\<dots> \<le> n * (1 / 2 + 1 / 2 ^ 54) / 2 ^ 53 + pow2 (- 1075) + n * (1 / 2 ^ 54)"
    using 1 2 3 by linarith
  also have "\<dots> \<le> n / 2 ^ 52 + pow2 (- 1075)" using n by (simp add: field_simps)
  finally show ?thesis unfolding k_def .
qed

lemma nearestTenHalfAway_nonneg:
  "0 \<le> v \<Longrightarrow> nearestTenHalfAway v = 10 * of_int (mathRound (v / 10))"
  by (cases "v = 0") (simp_all add: nearestTenHalfAway_def mathRound_def floor_half)

lemma smartRound_double:
  assumes "binary64 r = r" "0 \<le> r" "r \<le> 2 ^ 51"
  shows "smartRound binary64 r = nearestTenHalfAway r"
proof -
  have "\<bar>r\<bar> \<le> 2 ^ 51" using assms(2,3) by simp
  then have "smartRound binary64 r = 10 * of_int (mathRound (binary64 (r / 10)))"
    by (rule smartRound_binary64(1))
  also have "mathRound (binary64 (r / 10)) = mathRound (r / 10)"
    using assms by (rule mathRound_binary64_tenth)
  also have "10 * of_int (mathRound (r / 10)) = nearestTenHalfAway r"
    using assms(2) by (rule nearestTenHalfAway_nonneg [symmetric])
  finally show ?thesis .
qed

lemma share_rounded:
  assumes n: "0 \<le> n" "n \<le> 2 ^ 49" and s: "pow2 (- 1022) \<le> s" "s \<le> 1 / 2"
    and k: "\<bar>binary64 s\<bar> \<le> 51 / 100"
  shows "smartRound binary64 (binary64 (n * binary64 s)) =
           nearestTenHalfAway (binary64 (n * binary64 s)) \<and>
         (\<exists>j::int. smartRound binary64 (binary64 (n * binary64 s)) = 10 * of_int j) \<and>
         0 \<le> binary64 (n * binary64 s) \<and>
         \<bar>smartRound binary64 (binary64 (n * binary64 s)) - binary64 (n * binary64 s)\<bar> \<le> 5 \<and>
         (\<bar>smartRound binary64 (binary64 (n * binary64 s)) - binary64 (n * binary64 s)\<bar> = 5 \<longrightarrow>
            binary64 (n * binary64 s) < smartRound binary64 (binary64 (n * binary64 s))) \<and>
         \<bar>binary64 (n * binary64 s) - n * s\<bar> \<le> n / 2 ^ 52 + pow2 (- 1075)"
proof -
  define r where "r = binary64 (n * binary64 s)"
  have s0: "0 \<le> s" using s(1) pow2_pos [of "- 1022"] by linarith
  have k0: "0 \<le> binary64 s" using s0 by (rule binary64_nonneg)
  have r0: "0 \<le> r" unfolding r_def using n(1) k0 by (intro binary64_nonneg) simp
  have d: "binary64 r = r" unfolding r_def by (rule binary64_idem)
  have "\<bar>n\<bar> \<le> 2 ^ 49" using n by simp
  then have "\<bar>r\<bar> \<le> 2 ^ 51" unfolding r_def using k by (rule raw_share_binary64)
  then have r51: "r \<le> 2 ^ 51" by simp
  have e: "smartRound binary64 r = nearestTenHalfAway r" using d r0 r51 by (rule smartRound_double)
  have p0: "0 \<le> nearestTenHalfAway r" using r0 by (simp add: nearestTenHalfAway_def sgn_if)
  have "\<bar>nearestTenHalfAway r - r\<bar> \<le> 5 \<and>
        (\<bar>nearestTenHalfAway r - r\<bar> = 5 \<longrightarrow> r < nearestTenHalfAway r)"
    using nearestTenHalfAway_near [of r] r0 p0 by simp
  moreover have "\<bar>r - n * s\<bar> \<le> n / 2 ^ 52 + pow2 (- 1075)"
    unfolding r_def using n(1) s by (rule raw_share_error)
  ultimately show ?thesis
    unfolding r_def [symmetric] e using nearestTenHalfAway_multiple [of r] r0 by simp
qed

lemma smartRound_125: "smartRound binary64 125 = 130"
  by code_simp

text \<open>
  Claim C2, amended. In the double arithmetic of the code, for every list of sessions and
  every configuration with non-negative unit costs whose net prize pool is at most \<open>2\<^sup>4\<^sup>9\<close>:
  the net prize pool is not negative; each raw share is the double the code computes, the
  pool times the double nearest to 0.5, 0.3 or 0.2, rounded, which is within
  \<open>pool / 2\<^sup>5\<^sup>2 + 2\<^sup>-\<^sup>1\<^sup>0\<^sup>7\<^sup>5\<close> of 50, 30 or 20 per cent of the pool; and each prize is that raw
  share rounded to the nearest multiple of 10, a half going away from zero. So each prize is
  a multiple of 10, within 5 of the raw share, and above it when exactly 5 away. The
  quotient \<^verbatim>\<open>val / 10\<close> is itself rounded to a double, but never across a half: a double
  that is not the odd multiple of 5 next to it is at least one unit in the last place away
  from it, more than the rounding of the quotient can bridge. A raw value of 125 gives 130.
\<close>

theorem prizes_rounded:
  assumes "0 \<le> buyInCost c" "0 \<le> rebuyCost c" "0 \<le> addOnCost c"
    and "netPrizePool (calculateFinancials binary64 ss c) \<le> 2 ^ 49"
  shows
    "(let pool = netPrizePool (calculateFinancials binary64 ss c);
          prize = prizes (calculateFinancials binary64 ss c);
          raw1 = binary64 (pool * binary64 (50 / 100));
          raw2 = binary64 (pool * binary64 (30 / 100));
          raw3 = binary64 (pool * binary64 (20 / 100))
      in 0 \<le> pool \<and>
         first prize = nearestTenHalfAway raw1 \<and>
         second prize = nearestTenHalfAway raw2 \<and>
         third prize = nearestTenHalfAway raw3 \<and>
         (\<exists>k1 k2 k3 :: int.
            first prize = 10 * of_int k1 \<and> second prize = 10 * of_int k2 \<and>
            third prize = 10 * of_int k3) \<and>
         0 \<le> raw1 \<and> \<bar>first prize - raw1\<bar> \<le> 5 \<and>
         (\<bar>first prize - raw1\<bar> = 5 \<longrightarrow> raw1 < first prize) \<and>
         0 \<le> raw2 \<and> \<bar>second prize - raw2\<bar> \<le> 5 \<and>
         (\<bar>second prize - raw2\<bar> = 5 \<longrightarrow> raw2 < second prize) \<and>
         0 \<le> raw3 \<and> \<bar>third prize - raw3\<bar> \<le> 5 \<and>
         (\<bar>third prize - raw3\<bar> = 5 \<longrightarrow> raw3 < third prize) \<and>
         \<bar>raw1 - pool * (50 / 100)\<bar> \<le> pool / 2 ^ 52 + pow2 (- 1075) \<and>
         \<bar>raw2 - pool * (30 / 100)\<bar> \<le> pool / 2 ^ 52 + pow2 (- 1075) \<and>
         \<bar>raw3 - pool * (20 / 100)\<bar> \<le> pool / 2 ^ 52 + pow2 (- 1075)) \<and>
     smartRound binary64 125 = 130"
proof -
  define G where "G = foldl (addSession binary64 c) 0 ss"
  define n where "n = netPrizePool (calculateFinancials binary64 ss c)"
  have G: "0 \<le> G" "binary64 G = G"
    unfolding G_def using grossTotal_binary64 [OF assms(1,2,3), of 0 ss]
    by (simp_all add: binary64_def)
  have nG: "n = binary64 (binary64 (G - binary64 (G * binary64 (15 / 100))) -
                        binary64 (G * binary64 (5 / 100)))"
    unfolding n_def G_def by (simp add: calculateFinancials_def Let_def)
  have n0: "0 \<le> n" unfolding nG using G by (rule netPrizePool_nonneg)
  have n49: "n \<le> 2 ^ 49" unfolding n_def by (rule assms(4))
  have p: "first (prizes (calculateFinancials binary64 ss c)) =
             smartRound binary64 (binary64 (n * binary64 (50 / 100)))"
    "second (prizes (calculateFinancials binary64 ss c)) =
             smartRound binary64 (binary64 (n * binary64 (30 / 100)))"
    "third (prizes (calculateFinancials binary64 ss c)) =
             smartRound binary64 (binary64 (n * binary64 (20 / 100)))"
    unfolding n_def by (simp_all add: calculateFinancials_def Let_def)
  have "pow2 (- 1022) \<le> pow2 (- 3)" by (rule pow2_mono) simp
  then have tiny: "pow2 (- 1022) \<le> 1 / 8" by (simp add: pow2_def)
  have k: "\<bar>binary64 (50 / 100)\<bar> \<le> 51 / 100" "\<bar>binary64 (30 / 100)\<bar> \<le> 51 / 100"
    "\<bar>binary64 (20 / 100)\<bar> \<le> 51 / 100"
    using binary64_literals(3,4,5) by simp_all
  have 1: "pow2 (- 1022) \<le> 50 / 100" "(50 / 100 :: rat) \<le> 1 / 2" using tiny by simp_all
  have 2: "pow2 (- 1022) \<le> 30 / 100" "(30 / 100 :: rat) \<le> 1 / 2" using tiny by simp_all
  have 3: "pow2 (- 1022) \<le> 20 / 100" "(20 / 100 :: rat) \<le> 1 / 2" using tiny by simp_all
  show ?thesis
    unfolding Let_def p n_def [symmetric]
    using share_rounded [OF n0 n49 1 k(1)] share_rounded [OF n0 n49 2 k(2)]
      share_rounded [OF n0 n49 3 k(3)] n0 smartRound_125
    by blast
qed

lemma financials_tieConfig:
  "calculateFinancials binary64 [newSession ''1'', newSession ''2''] tieConfig =
     \<lparr>grossTotal = 625 / 2, adminTax = 295 / 8, mainEventPot = 125 / 8,
      netPrizePool = 250, prizes = \<lparr>first = 130, second = 80, third = 50\<rparr>,
      roundingAdjustment = - 10,
      playerBalances =
        [\<lparr>playerId_balance = ''1'', totalPaid = 625 / 4, prizeReceived = 0,
            bbqShare = 150, netBalance = - (1225 / 4)\<rparr>,
         \<lparr>playerId_balance = ''2'', totalPaid = 625 / 4, prizeReceived = 0,
            bbqShare = 150, netBalance = - (1225 / 4)\<rparr>]\<rparr>"
  by code_simp

lemma raw_shares_250:
  "binary64 (250 * binary64 (50 / 100)) = 125"
  "binary64 (250 * binary64 (30 / 100)) = 75"
  "binary64 (250 * binary64 (20 / 100)) = 50"
  by code_simp+

theorem prizes_rounded_witness:
  "0 \<le> buyInCost tieConfig \<and> 0 \<le> rebuyCost tieConfig \<and> 0 \<le> addOnCost tieConfig \<and>
   netPrizePool (calculateFinancials binary64 [newSession ''1'', newSession ''2''] tieConfig)
     = 250 \<and>
   (250 :: rat) \<le> 2 ^ 49 \<and>
   prizes (calculateFinancials binary64 [newSession ''1'', newSession ''2''] tieConfig) =
     \<lparr>first = 130, second = 80, third = 50\<rparr> \<and>
   binary64 (250 * binary64 (50 / 100)) = 125 \<and> nearestTenHalfAway 125 = 130 \<and>
   binary64 (250 * binary64 (30 / 100)) = 75 \<and> nearestTenHalfAway 75 = 80 \<and>
   binary64 (250 * binary64 (20 / 100)) = 50 \<and> nearestTenHalfAway 50 = 50"
proof -
  have h: "0 \<le> buyInCost tieConfig" "0 \<le> rebuyCost tieConfig" "0 \<le> addOnCost tieConfig"
    by (simp_all add: tieConfig_def)
  have b: "netPrizePool (calculateFinancials binary64 [newSession ''1'', newSession ''2'']
      tieConfig) \<le> 2 ^ 49"
    unfolding financials_tieConfig by simp
  from prizes_rounded [OF h b]
  have "nearestTenHalfAway 125 = 130 \<and> nearestTenHalfAway 75 = 80 \<and>
        nearestTenHalfAway 50 = 50"
    unfolding financials_tieConfig Let_def FinancialResult.select_convs Prizes.select_convs
      raw_shares_250
    by simp
  with h raw_shares_250 show ?thesis unfolding financials_tieConfig by simp
qed

lemma financials_hugeConfig:
  "calculateFinancials binary64 [newSession ''1'', newSession ''2''] hugeConfig =
     \<lparr>grossTotal = 144115188075855872, adminTax = 21617278211378380,
      mainEventPot = 7205759403792794, netPrizePool = 115292150460684688,
      prizes = \<lparr>first = 57646075230342336, second = 34587645138205408,
                third = 23058430092136940\<rparr>,
      roundingAdjustment = 0,
      playerBalances =
        [\<lparr>playerId_balance = ''1'', totalPaid = 72057594037927936, prizeReceived = 0,
            bbqShare = 150, netBalance = - 72057594037928080\<rparr>,
         \<lparr>playerId_balance = ''2'', totalPaid = 72057594037927936, prizeReceived = 0,
            bbqShare = 150, netBalance = - 72057594037928080\<rparr>]\<rparr>"
  by code_simp

lemma financials_edgeConfig:
  "calculateFinancials binary64 [newSession ''1'', newSession ''2''] edgeConfig =
     \<lparr>grossTotal = 8796093022207999 / 281474976710656,
      adminTax = - (351843720888325 / 1125899906842624),
      mainEventPot = 25 / 16,
      netPrizePool = 7036874417766399 / 281474976710656,
      prizes = \<lparr>first = 10, second = 10, third = 10\<rparr>,
      roundingAdjustment = - (1407374883553281 / 281474976710656),
      playerBalances =
        [\<lparr>playerId_balance = ''1'', totalPaid = 8796093022207999 / 562949953421312,
            prizeReceived = 0, bbqShare = 150, netBalance = - (1325 / 8)\<rparr>,
         \<lparr>playerId_balance = ''2'', totalPaid = 8796093022207999 / 562949953421312,
            prizeReceived = 0, bbqShare = 150, netBalance = - (1325 / 8)\<rparr>]\<rparr>"
  by code_simp

lemma raw_share_edge:
  "binary64 (7036874417766399 / 281474976710656 * binary64 (20 / 100)) = 5"
  "nearestTenHalfAway (7036874417766399 / 281474976710656 * (20 / 100)) = 0"
  "binary64 (8796093022207999 / 2 ^ 49) = 8796093022207999 / 2 ^ 49"
  by code_simp+

lemma not_multiple_of_10: "\<not> (\<exists>k::int. (57646075230342336 :: rat) = 10 * of_int k)"
proof
  assume "\<exists>k::int. (57646075230342336 :: rat) = 10 * of_int k"
  then obtain k :: int where "(57646075230342336 :: rat) = 10 * of_int k" ..
  then have "(of_int 57646075230342336 :: rat) = of_int (10 * k)" by simp
  then have "(57646075230342336 :: int) = 10 * k" by (simp only: of_int_eq_iff)
  then show False by presburger
qed

text \<open>
  Claim C2 as stated fails in the arithmetic the code runs in, in two ways. With two
  sessions of one buy-in each at a buy-in of \<open>2\<^sup>5\<^sup>6\<close> the first prize is 57646075230342336,
  which is not a multiple of 10: the product of \<^verbatim>\<open>Math.round(val / 10)\<close> and 10 is above \<open>2\<^sup>5\<^sup>3\<close>
  and is rounded to a double. With a buy-in of \<open>15.624999999999998\<close> the net prize pool is
  \<open>24.999999999999996\<close>: 20 per cent of it is below 5, and the nearest multiple of 10 is 0,
  but the raw share the code computes is the double 5, and the third prize is 10.
\<close>

theorem prizes_rounded_counterexample:
  "0 \<le> buyInCost hugeConfig \<and> 0 \<le> rebuyCost hugeConfig \<and> 0 \<le> addOnCost hugeConfig \<and>
   first (prizes (calculateFinancials binary64 [newSession ''1'', newSession ''2''] hugeConfig))
     = 57646075230342336 \<and>
   \<not> (\<exists>k::int.
        first (prizes (calculateFinancials binary64 [newSession ''1'', newSession ''2'']
          hugeConfig)) = 10 * of_int k) \<and>
   0 \<le> buyInCost edgeConfig \<and> 0 \<le> rebuyCost edgeConfig \<and> 0 \<le> addOnCost edgeConfig \<and>
   binary64 (buyInCost edgeConfig) = buyInCost edgeConfig \<and>
   netPrizePool (calculateFinancials binary64 [newSession ''1'', newSession ''2''] edgeConfig)
     = 7036874417766399 / 281474976710656 \<and>
   third (prizes (calculateFinancials binary64 [newSession ''1'', newSession ''2''] edgeConfig))
     = 10 \<and>
   nearestTenHalfAway
     (netPrizePool (calculateFinancials binary64 [newSession ''1'', newSession ''2''] edgeConfig)
        * (20 / 100)) = 0 \<and>
   binary64
     (netPrizePool (calculateFinancials binary64 [newSession ''1'', newSession ''2''] edgeConfig)
        * binary64 (20 / 100)) = 5"
  unfolding financials_hugeConfig financials_edgeConfig FinancialResult.select_convs
    Prizes.select_convs raw_share_edge(1,2)
  using not_multiple_of_10 raw_share_edge(3)
  by (simp add: hugeConfig_def edgeConfig_def)

lemma financials_binary64_INITIAL_CONFIG:
  "calculateFinancials binary64 (map newSession [''1'', ''2'', ''3'', ''4'']) INITIAL_CONFIG =
     \<lparr>grossTotal = 200, adminTax = 30, mainEventPot = 10, netPrizePool = 160,
      prizes = \<lparr>first = 80, second = 50, third = 30\<rparr>, roundingAdjustment = 0,
      playerBalances =
        [\<lparr>playerId_balance = ''1'', totalPaid = 50, prizeReceived = 0, bbqShare = 75,
            netBalance = - 125\<rparr>,
         \<lparr>playerId_balance = ''2'', totalPaid = 50, prizeReceived = 0, bbqShare = 75,
            netBalance = - 125\<rparr>,
         \<lparr>playerId_balance = ''3'', totalPaid = 50, prizeReceived = 0, bbqShare = 75,
            netBalance = - 125\<rparr>,
         \<lparr>playerId_balance = ''4'', totalPaid = 50, prizeReceived = 0, bbqShare = 75,
            netBalance = - 125\<rparr>]\<rparr>"
  by code_simp

text \<open>
  The prizes in the double arithmetic of the code, whatever the sign of the unit costs.
  While the net prize pool is at most \<open>2\<^sup>4\<^sup>9\<close> in magnitude, every product and quotient of \<^verbatim>\<open>smartRound\<close> stays below \<open>2\<^sup>5\<^sup>3\<close>,
  where the integers are doubles: each prize is an integer multiple of 10, and is within
  5 (plus the rounding error of the one division, below \<open>1 / 4\<close>) of the raw share as the
  code computes it.
\<close>

theorem prizes_binary64:
  assumes "\<bar>netPrizePool (calculateFinancials binary64 ss c)\<bar> \<le> 2 ^ 49"
  shows
    "(\<exists>k :: int. first (prizes (calculateFinancials binary64 ss c)) = 10 * of_int k) \<and>
     (\<exists>k :: int. second (prizes (calculateFinancials binary64 ss c)) = 10 * of_int k) \<and>
     (\<exists>k :: int. third (prizes (calculateFinancials binary64 ss c)) = 10 * of_int k) \<and>
     \<bar>first (prizes (calculateFinancials binary64 ss c)) -
        binary64 (netPrizePool (calculateFinancials binary64 ss c) * binary64 (50 / 100))\<bar>
       \<le> 5 + 2 ^ 51 / 2 ^ 53 + 10 * pow2 (- 1075) \<and>
     \<bar>second (prizes (calculateFinancials binary64 ss c)) -
        binary64 (netPrizePool (calculateFinancials binary64 ss c) * binary64 (30 / 100))\<bar>
       \<le> 5 + 2 ^ 51 / 2 ^ 53 + 10 * pow2 (- 1075) \<and>
     \<bar>third (prizes (calculateFinancials binary64 ss c)) -
        binary64 (netPrizePool (calculateFinancials binary64 ss c) * binary64 (20 / 100))\<bar>
       \<le> 5 + 2 ^ 51 / 2 ^ 53 + 10 * pow2 (- 1075)"
proof -
  define n where "n = netPrizePool (calculateFinancials binary64 ss c)"
  define r1 where "r1 = binary64 (n * binary64 (50 / 100))"
  define r2 where "r2 = binary64 (n * binary64 (30 / 100))"
  define r3 where "r3 = binary64 (n * binary64 (20 / 100))"
  have p: "first (prizes (calculateFinancials binary64 ss c)) = smartRound binary64 r1"
    "second (prizes (calculateFinancials binary64 ss c)) = smartRound binary64 r2"
    "third (prizes (calculateFinancials binary64 ss c)) = smartRound binary64 r3"
    unfolding r1_def r2_def r3_def n_def by (simp_all add: calculateFinancials_def Let_def)
  have n: "\<bar>n\<bar> \<le> 2 ^ 49" unfolding n_def by (rule assms)
  have c: "\<bar>binary64 (50 / 100)\<bar> \<le> 51 / 100" "\<bar>binary64 (30 / 100)\<bar> \<le> 51 / 100"
    "\<bar>binary64 (20 / 100)\<bar> \<le> 51 / 100"
    using binary64_literals(3,4,5) by simp_all
  have b: "\<bar>r1\<bar> \<le> 2 ^ 51" "\<bar>r2\<bar> \<le> 2 ^ 51" "\<bar>r3\<bar> \<le> 2 ^ 51"
    unfolding r1_def r2_def r3_def
    by (rule raw_share_binary64 [OF n c(1)], rule raw_share_binary64 [OF n c(2)],
        rule raw_share_binary64 [OF n c(3)])
  have near: "\<bar>smartRound binary64 r - r\<bar> \<le> 5 + 2 ^ 51 / 2 ^ 53 + 10 * pow2 (- 1075)"
    if "\<bar>r\<bar> \<le> 2 ^ 51" for r
  proof -
    have "\<bar>r\<bar> / 2 ^ 53 \<le> 2 ^ 51 / 2 ^ 53" using that by (simp add: divide_right_mono)
    then show ?thesis using smartRound_binary64(2) [OF that] by linarith
  qed
  show ?thesis
    unfolding p n_def [symmetric] r1_def [symmetric] r2_def [symmetric] r3_def [symmetric]
    using smartRound_binary64(1) [OF b(1)] smartRound_binary64(1) [OF b(2)]
      smartRound_binary64(1) [OF b(3)] near [OF b(1)] near [OF b(2)] near [OF b(3)]
    by auto
qed

theorem prizes_binary64_witness:
  "\<bar>netPrizePool (calculateFinancials binary64 (map newSession [''1'', ''2'', ''3'', ''4''])
      INITIAL_CONFIG)\<bar> \<le> 2 ^ 49 \<and>
   prizes (calculateFinancials binary64 (map newSession [''1'', ''2'', ''3'', ''4''])
      INITIAL_CONFIG) = \<lparr>first = 80, second = 50, third = 30\<rparr> \<and>
   (\<exists>k :: int. first (prizes (calculateFinancials binary64
      (map newSession [''1'', ''2'', ''3'', ''4'']) INITIAL_CONFIG)) = 10 * of_int k)"
proof -
  have h: "\<bar>netPrizePool (calculateFinancials binary64 (map newSession [''1'', ''2'', ''3'', ''4''])
      INITIAL_CONFIG)\<bar> \<le> 2 ^ 49"
    unfolding financials_binary64_INITIAL_CONFIG by simp
  from prizes_binary64 [OF h] have
    "\<exists>k :: int. first (prizes (calculateFinancials binary64
      (map newSession [''1'', ''2'', ''3'', ''4'']) INITIAL_CONFIG)) = 10 * of_int k"
    by blast
  with h show ?thesis unfolding financials_binary64_INITIAL_CONFIG by simp
qed


section \<open>Properties of the table draw\<close>

lemma randomIndex_bound:
  assumes "0 \<le> r" "r < 1" "binary64 r = r"
  shows "nat \<lfloor>binary64 (r * of_nat (Suc n))\<rfloor> < Suc n"
proof -
  have "r \<le> 1 - 1 / 2 ^ 53" using assms(3,1,2) by (rule double_below_one)
  with assms(1) have "binary64 (r * of_nat (Suc n)) < of_nat (Suc n)"
    by (rule binary64_product_below) simp
  then have "\<lfloor>binary64 (r * of_nat (Suc n))\<rfloor> < int (Suc n)"
    by (simp add: floor_less_iff)
  then show ?thesis by linarith
qed

lemma shuffleLoop_mset:
  "validRandom rnd \<Longrightarrow> ci \<le> length xs \<Longrightarrow> mset (shuffleLoop rnd k xs ci) = mset xs"
proof (induction ci arbitrary: k xs)
  case 0
  then show ?case by simp
next
  case (Suc ci)
  let ?ri = "nat \<lfloor>binary64 (rnd k * of_nat (Suc ci))\<rfloor>"
  let ?ys = "xs[ci := xs ! ?ri, ?ri := xs ! ci]"
  have "?ri < Suc ci"
    using Suc.prems(1) by (intro randomIndex_bound) (simp_all add: validRandom_def)
  with Suc.prems(2) have b: "?ri < length xs" "ci < length xs" by simp_all
  then have sw: "mset ?ys = mset xs" by (rule mset_swap)
  have "mset (shuffleLoop rnd (Suc k) ?ys ci) = mset ?ys"
    using Suc.prems b by (intro Suc.IH) simp_all
  with sw show ?case by (simp add: Let_def)
qed

lemma shuffle_mset: "validRandom rnd \<Longrightarrow> mset (shuffle rnd xs) = mset xs"
  by (simp add: shuffle_def shuffleLoop_mset)

lemma shuffleLoop_length: "length (shuffleLoop rnd k xs ci) = length xs"
  by (induction ci arbitrary: k xs) (simp_all add: Let_def)

lemma shuffle_length: "length (shuffle rnd xs) = length xs"
  by (simp add: shuffle_def shuffleLoop_length)

lemma validRandom_zeroRandom: "validRandom zeroRandom"
  by (simp add: validRandom_def zeroRandom_def binary64_def)

lemma binary64_twoThirds:
  "binary64 (6004799503160661 / 2 ^ 53) = 6004799503160661 / 2 ^ 53"
  "nat \<lfloor>binary64 (6004799503160661 / 2 ^ 53 * of_nat 3)\<rfloor> = 2"
  "nat \<lfloor>6004799503160661 / 2 ^ 53 * of_nat 3 :: rat\<rfloor> = 1"
  by code_simp+

lemma validRandom_twoThirdsRandom: "validRandom twoThirdsRandom"
  unfolding validRandom_def twoThirdsRandom_def binary64_twoThirds(1) by simp

lemma shuffle_twoThirdsRandom:
  "shuffle twoThirdsRandom [1, 2, 3, 4 :: nat] = [1, 2, 4, 3]"
  by code_simp

text \<open>
  \<^verbatim>\<open>shuffle\<close> returns a permutation of its argument, whatever doubles in \<open>[0, 1)\<close> the calls
  of \<^verbatim>\<open>Math.random()\<close> give: the rounded product \<^verbatim>\<open>Math.random() * currentIndex\<close> stays below
  \<^verbatim>\<open>currentIndex\<close>, so every random index is inside the array. With \<open>0.6666666666666666\<close>
  the product with 3 is rounded up to 2, and the index is 2 where the floor of the exact
  product is 1.
\<close>

theorem shuffle_permutation:
  "validRandom rnd \<Longrightarrow>
   mset (shuffle rnd array) = mset array \<and> length (shuffle rnd array) = length array"
  by (simp add: shuffle_mset shuffle_length)

theorem shuffle_permutation_witness:
  "validRandom twoThirdsRandom \<and>
   nat \<lfloor>binary64 (twoThirdsRandom 0 * of_nat 3)\<rfloor> = 2 \<and>
   nat \<lfloor>twoThirdsRandom 0 * of_nat 3\<rfloor> = 1 \<and>
   shuffle twoThirdsRandom [1, 2, 3, 4 :: nat] = [1, 2, 4, 3] \<and>
   mset (shuffle twoThirdsRandom [1, 2, 3, 4 :: nat]) = mset [1, 2, 3, 4]"
proof -
  from shuffle_permutation [OF validRandom_twoThirdsRandom, of "[1, 2, 3, 4 :: nat]"]
  have "mset (shuffle twoThirdsRandom [1, 2, 3, 4 :: nat]) = mset [1, 2, 3, 4]" by simp
  with shuffle_twoThirdsRandom validRandom_twoThirdsRandom binary64_twoThirds(2,3)
  show ?thesis unfolding twoThirdsRandom_def by simp
qed

lemma seats_mset:
  "mset (concat (map players_table ts)) = (\<Sum>t\<in>#mset ts. mset (players_table t))"
  by (induction ts) simp_all

lemma seats_mset_perm:
  "mset ts = mset ts' \<Longrightarrow>
   mset (concat (map players_table ts)) = mset (concat (map players_table ts'))"
  by (simp add: seats_mset)

lemma sort_key_Cons_min:
  assumes "sort_key f ts = t # rest"
  shows "t \<in> set ts" "\<forall>u \<in> set ts. f t \<le> f u"
proof -
  have s: "set ts = set (t # rest)" using assms by (metis set_sort)
  then show "t \<in> set ts" by simp
  have "sorted (map f (t # rest))" using assms by (metis sorted_sort_key)
  then show "\<forall>u \<in> set ts. f t \<le> f u" unfolding s by auto
qed

lemma sort_key_first_min:
  assumes "sort_key f ts = t # rest"
  shows "\<exists>before after. ts = before @ t # after \<and> (\<forall>u \<in> set before. f t < f u)"
proof -
  have mn: "\<forall>u \<in> set ts. f t \<le> f u" using sort_key_Cons_min [OF assms] by simp
  have "filter (\<lambda>y. f y = f t) ts = filter (\<lambda>y. f y = f t) (t # rest)"
    using sort_key_stable [of f "f t" ts] assms by simp
  then have "filter (\<lambda>y. f y = f t) ts = t # filter (\<lambda>y. f y = f t) rest" by simp
  then obtain before after where
    "ts = before @ t # after" "\<forall>u \<in> set before. \<not> f u = f t"
    unfolding filter_eq_Cons_iff by blast
  moreover from this mn have "\<forall>u \<in> set before. f t < f u"
    by (metis Un_iff order_le_imp_less_or_eq set_append)
  ultimately show ?thesis by blast
qed

lemma seatNonDealer_Cons:
  assumes "ts \<noteq> []"
  obtains t rest where "sort_key tableSize ts = t # rest"
    and "seatNonDealer ts p = pushPlayer (id_player p) t # rest"
proof -
  have "sort_key tableSize ts \<noteq> []"
    using assms by (metis length_0_conv length_sort)
  then obtain t rest where "sort_key tableSize ts = t # rest"
    by (cases "sort_key tableSize ts") auto
  then show ?thesis using that by (simp add: seatNonDealer_def)
qed

lemma seatNonDealer_length: "length (seatNonDealer ts p) = length ts"
proof (cases "ts = []")
  case True
  then show ?thesis by (simp add: seatNonDealer_def)
next
  case False
  then obtain t rest where s: "sort_key tableSize ts = t # rest"
    and e: "seatNonDealer ts p = pushPlayer (id_player p) t # rest"
    by (rule seatNonDealer_Cons)
  have "length (t # rest) = length ts" using s by (metis length_sort)
  with e show ?thesis by simp
qed

lemma seatNonDealer_seats:
  assumes "ts \<noteq> []"
  shows "mset (concat (map players_table (seatNonDealer ts p))) =
           mset (concat (map players_table ts)) + {#id_player p#}"
proof -
  from assms obtain t rest where s: "sort_key tableSize ts = t # rest"
    and e: "seatNonDealer ts p = pushPlayer (id_player p) t # rest"
    by (rule seatNonDealer_Cons)
  have "mset (t # rest) = mset ts" using s by (metis mset_sort)
  then have "mset (concat (map players_table ts)) = mset (concat (map players_table (t # rest)))"
    by (intro seats_mset_perm) simp
  then show ?thesis by (simp add: e pushPlayer_def)
qed

lemma seatNonDealer_ids:
  "mset (map id_table (seatNonDealer ts p)) = mset (map id_table ts)"
proof (cases "ts = []")
  case True
  then show ?thesis by (simp add: seatNonDealer_def)
next
  case False
  then obtain t rest where s: "sort_key tableSize ts = t # rest"
    and e: "seatNonDealer ts p = pushPlayer (id_player p) t # rest"
    by (rule seatNonDealer_Cons)
  have "mset (t # rest) = mset ts" using s by (metis mset_sort)
  then have "image_mset id_table (mset (t # rest)) = image_mset id_table (mset ts)" by simp
  then show ?thesis by (simp add: e pushPlayer_def)
qed

lemma seatNonDealer_balanced:
  assumes "balanced ts"
  shows "balanced (seatNonDealer ts p)"
proof (cases "ts = []")
  case True
  then show ?thesis by (simp add: seatNonDealer_def balanced_def)
next
  case False
  then obtain t rest where s: "sort_key tableSize ts = t # rest"
    and e: "seatNonDealer ts p = pushPlayer (id_player p) t # rest"
    by (rule seatNonDealer_Cons)
  have st: "set ts = insert t (set rest)" using s by (metis set_sort list.simps(15))
  have mn: "\<forall>u \<in> set ts. tableSize t \<le> tableSize u"
    using sort_key_Cons_min [OF s] by simp
  have up: "\<forall>u \<in> set ts. tableSize u \<le> tableSize t + 1"
    using assms st by (auto simp: balanced_def)
  have sz: "tableSize (pushPlayer (id_player p) t) = tableSize t + 1"
    by (simp add: tableSize_def pushPlayer_def)
  show ?thesis
    unfolding e balanced_def using mn up sz st assms
    by (auto simp: balanced_def)
qed

lemma foldl_seatNonDealer:
  "ts \<noteq> [] \<Longrightarrow> balanced ts \<Longrightarrow>
   balanced (foldl seatNonDealer ts ps) \<and>
   length (foldl seatNonDealer ts ps) = length ts \<and>
   mset (map id_table (foldl seatNonDealer ts ps)) = mset (map id_table ts) \<and>
   mset (concat (map players_table (foldl seatNonDealer ts ps))) =
     mset (concat (map players_table ts)) + mset (map id_player ps)"
proof (induction ps arbitrary: ts)
  case Nil
  then show ?case by simp
next
  case (Cons p ps)
  have ne: "seatNonDealer ts p \<noteq> []"
    using Cons.prems(1) seatNonDealer_length [of ts p] by (metis length_0_conv)
  have b: "balanced (seatNonDealer ts p)"
    using Cons.prems(2) by (rule seatNonDealer_balanced)
  show ?case
    using Cons.IH [OF ne b] seatNonDealer_length [of ts p] seatNonDealer_ids [of ts p]
      seatNonDealer_seats [OF Cons.prems(1), of p]
    by simp
qed

lemma newTables_props:
  "length (newTables n) = n" "balanced (newTables n)"
  "concat (map players_table (newTables n)) = []"
  "map id_table (newTables n) = map (\<lambda>i. int i + 1) [0..<n]"
  by (auto simp: newTables_def balanced_def tableSize_def comp_def)

lemma sorted_ids: "sorted (map (\<lambda>i. int i + 1) [0..<n])"
  by (simp add: sorted_map sorted_wrt_iff_nth_less)

lemma sort_key_ids:
  assumes "mset (map id_table ts) = mset (map (\<lambda>i. int i + 1) [0..<n])"
  shows "map id_table (sort_key id_table ts) = map (\<lambda>i. int i + 1) [0..<n]"
proof -
  have "sort (map (\<lambda>i. int i + 1) [0..<n]) = map id_table (sort_key id_table ts)"
    using assms by (intro properties_for_sort) simp_all
  moreover have "sort (map (\<lambda>i. int i + 1) [0..<n]) = map (\<lambda>i. int i + 1) [0..<n]"
    using sorted_ids by (intro properties_for_sort) simp_all
  ultimately show ?thesis by simp
qed

lemma drawTables_no_dealers:
  assumes "\<forall>p \<in> set roster. \<not> isDealer p" "roster \<noteq> []"
  shows "drawTables rnd roster n =
           sort_key id_table
             (foldl seatNonDealer (newTables (nat (max 1 (min 3 n)))) (shuffle rnd roster))"
proof -
  have "filter isDealer roster = []" using assms(1) by (simp add: filter_empty_conv)
  moreover have "filter (\<lambda>p. \<not> isDealer p) roster = roster" using assms(1) by simp
  ultimately show ?thesis using assms(2) by (simp add: drawTables_def Let_def)
qed

lemma seatDealer_length: "length (seatDealer k ts x) = length ts"
  by (cases x) (simp add: seatDealer_def Let_def)

lemma foldl_seatDealer_length: "length (foldl (seatDealer k) ts xs) = length ts"
  by (induction xs arbitrary: ts) (simp_all add: seatDealer_length)

lemma foldl_seatNonDealer_length: "length (foldl seatNonDealer ts ps) = length ts"
  by (induction ps arbitrary: ts) (simp_all add: seatNonDealer_length)

lemma tablesBefore_length:
  "length (tablesBefore rnd roster n j) = nat (max 1 (min 3 n))"
  by (simp add: tablesBefore_def Let_def foldl_seatNonDealer_length foldl_seatDealer_length
      newTables_props(1))

lemma tablesBefore_Suc:
  "j < length (shuffle rnd (filter (\<lambda>p. \<not> isDealer p) roster)) \<Longrightarrow>
   tablesBefore rnd roster n (Suc j) =
     seatNonDealer (tablesBefore rnd roster n j)
       (shuffle rnd (filter (\<lambda>p. \<not> isDealer p) roster) ! j)"
  by (simp add: tablesBefore_def Let_def take_Suc_conv_app_nth)

lemma drawTables_tablesBefore:
  "roster \<noteq> [] \<Longrightarrow>
   drawTables rnd roster n =
     sort_key id_table
       (tablesBefore rnd roster n (length (filter (\<lambda>p. \<not> isDealer p) roster)))"
  by (simp add: drawTables_def tablesBefore_def Let_def shuffle_length)

lemma tablesBefore_roster4:
  "tablesBefore zeroRandom roster4 3 3 =
     [\<lparr>id_table = 3, players_table = [''4'']\<rparr>, \<lparr>id_table = 2, players_table = [''3'']\<rparr>,
      \<lparr>id_table = 1, players_table = [''2'']\<rparr>]"
  "tablesBefore zeroRandom roster4 3 4 =
     [\<lparr>id_table = 3, players_table = [''4'', ''1'']\<rparr>, \<lparr>id_table = 2, players_table = [''3'']\<rparr>,
      \<lparr>id_table = 1, players_table = [''2'']\<rparr>]"
  by code_simp+

lemma drawTables_roster4:
  "drawTables zeroRandom roster4 3 =
     [\<lparr>id_table = 1, players_table = [''2'']\<rparr>, \<lparr>id_table = 2, players_table = [''3'']\<rparr>,
      \<lparr>id_table = 3, players_table = [''4'', ''1'']\<rparr>]"
  by code_simp

lemma drawTables_twoThirdsRandom:
  "drawTables twoThirdsRandom roster4 3 =
     [\<lparr>id_table = 1, players_table = [''1'']\<rparr>, \<lparr>id_table = 2, players_table = [''2'']\<rparr>,
      \<lparr>id_table = 3, players_table = [''4'', ''3'']\<rparr>]"
  by code_simp

lemma shuffle_roster4:
  "shuffle zeroRandom (filter (\<lambda>p. \<not> isDealer p) roster4) =
     [\<lparr>id_player = ''2'', name = ''Bia'', isDealer = False\<rparr>,
      \<lparr>id_player = ''3'', name = ''Caio'', isDealer = False\<rparr>,
      \<lparr>id_player = ''4'', name = ''Davi'', isDealer = False\<rparr>,
      \<lparr>id_player = ''1'', name = ''Ana'', isDealer = False\<rparr>]"
  by code_simp

text \<open>
  Claim C6. For every roster without dealers, every table count from 1 to 3 and every
  outcome of the shuffle (whatever doubles in \<open>[0, 1)\<close> the calls of \<^verbatim>\<open>Math.random()\<close> give, the
  random index being the floor of the rounded product, as in the code), \<^verbatim>\<open>drawTables\<close> seats
  exactly the input players: the seats of all tables together are the player ids of the
  roster, each as often as it is in the roster; the table sizes add up to the number of
  players; with distinct player ids no id is in two seats; the sizes of any two tables
  differ by at most 1; and for a roster that is not empty the tables are those with ids 1
  to the table count.
\<close>

theorem drawTables_seats_everyone:
  assumes "\<forall>p \<in> set roster. \<not> isDealer p" and "validRandom rnd"
    and "1 \<le> n" and "n \<le> 3"
  shows
    "mset (concat (map players_table (drawTables rnd roster n))) = mset (map id_player roster) \<and>
     sum_list (map tableSize (drawTables rnd roster n)) = length roster \<and>
     (distinct (map id_player roster) \<longrightarrow>
        distinct (concat (map players_table (drawTables rnd roster n)))) \<and>
     (\<forall>t \<in> set (drawTables rnd roster n). \<forall>u \<in> set (drawTables rnd roster n).
        tableSize t \<le> tableSize u + 1) \<and>
     (roster \<noteq> [] \<longrightarrow>
        map id_table (drawTables rnd roster n) = map (\<lambda>i. int i + 1) [0..<nat n])"
proof (cases "roster = []")
  case True
  then show ?thesis by (simp add: drawTables_def)
next
  case False
  let ?k = "nat (max 1 (min 3 n))"
  let ?ts = "foldl seatNonDealer (newTables ?k) (shuffle rnd roster)"
  have k: "?k = nat n" using assms(3,4) by simp
  have d: "drawTables rnd roster n = sort_key id_table ?ts"
    using assms(1) False by (rule drawTables_no_dealers)
  have "0 < ?k" by simp
  then have ne: "newTables ?k \<noteq> []"
    using newTables_props(1) [of ?k] by (metis length_0_conv less_numeral_extra(3))
  have f: "balanced ?ts" "mset (map id_table ?ts) = mset (map id_table (newTables ?k))"
    "mset (concat (map players_table ?ts)) =
       mset (concat (map players_table (newTables ?k))) + mset (map id_player (shuffle rnd roster))"
    using foldl_seatNonDealer [OF ne newTables_props(2), of "shuffle rnd roster"] by simp_all
  have sh: "mset (map id_player (shuffle rnd roster)) = mset (map id_player roster)"
    using shuffle_mset [OF assms(2), of roster] by simp
  have m: "mset (sort_key id_table ?ts) = mset ?ts" by simp
  have c1: "mset (concat (map players_table (drawTables rnd roster n))) = mset (map id_player roster)"
    unfolding d using seats_mset_perm [OF m] f(3) sh by (simp add: newTables_props(3))
  have c2: "sum_list (map tableSize (drawTables rnd roster n)) = length roster"
  proof -
    have "sum_list (map tableSize (drawTables rnd roster n)) =
            length (concat (map players_table (drawTables rnd roster n)))"
      by (simp add: length_concat comp_def tableSize_def [abs_def])
    also have "\<dots> = size (mset (concat (map players_table (drawTables rnd roster n))))"
      by simp
    also have "\<dots> = length roster" unfolding c1 by simp
    finally show ?thesis .
  qed
  have c3: "distinct (map id_player roster) \<longrightarrow>
        distinct (concat (map players_table (drawTables rnd roster n)))"
    using c1 by (metis mset_eq_imp_distinct_iff)
  have c4: "\<forall>t \<in> set (drawTables rnd roster n). \<forall>u \<in> set (drawTables rnd roster n).
        tableSize t \<le> tableSize u + 1"
    unfolding d using f(1) by (simp add: balanced_def)
  have c5: "map id_table (drawTables rnd roster n) = map (\<lambda>i. int i + 1) [0..<nat n]"
    unfolding d using f(2) by (intro sort_key_ids) (simp add: newTables_props(4) k)
  from c1 c2 c3 c4 c5 show ?thesis by simp
qed

theorem drawTables_seats_everyone_witness:
  "validRandom twoThirdsRandom \<and> filter isDealer roster4 = [] \<and>
   drawTables twoThirdsRandom roster4 3 =
     [\<lparr>id_table = 1, players_table = [''1'']\<rparr>, \<lparr>id_table = 2, players_table = [''2'']\<rparr>,
      \<lparr>id_table = 3, players_table = [''4'', ''3'']\<rparr>] \<and>
   mset (concat (map players_table (drawTables twoThirdsRandom roster4 3))) =
     mset (map id_player roster4) \<and>
   sum_list (map tableSize (drawTables twoThirdsRandom roster4 3)) = length roster4"
proof -
  have h: "\<forall>p \<in> set roster4. \<not> isDealer p" by (simp add: roster4_def)
  have f: "filter isDealer roster4 = []" by (simp add: roster4_def)
  from drawTables_seats_everyone [OF h validRandom_twoThirdsRandom, of 3]
  have "mset (concat (map players_table (drawTables twoThirdsRandom roster4 3))) =
          mset (map id_player roster4) \<and>
        sum_list (map tableSize (drawTables twoThirdsRandom roster4 3)) = length roster4"
    by simp
  with f validRandom_twoThirdsRandom drawTables_twoThirdsRandom show ?thesis by simp
qed

text \<open>
  Claim C7, amended. For every roster, every table count and every outcome of the
  shuffle, the \<open>j\<close>-th shuffled non-dealer is pushed onto a table that has the fewest
  players at that moment; among the tables tied for the fewest it is the one that comes
  first in the array of tables as the earlier sorts left it, which need not be the one
  with the lowest id.
\<close>

theorem seatNonDealer_smallest:
  assumes "j < length (shuffle rnd (filter (\<lambda>p. \<not> isDealer p) roster))"
  shows "\<exists>t rest before after.
           sort_key tableSize (tablesBefore rnd roster n j) = t # rest \<and>
           tablesBefore rnd roster n (Suc j) =
             pushPlayer (id_player (shuffle rnd (filter (\<lambda>p. \<not> isDealer p) roster) ! j)) t # rest \<and>
           (\<forall>u \<in> set (tablesBefore rnd roster n j). tableSize t \<le> tableSize u) \<and>
           tablesBefore rnd roster n j = before @ t # after \<and>
           (\<forall>u \<in> set before. tableSize t < tableSize u)"
proof -
  let ?p = "shuffle rnd (filter (\<lambda>p. \<not> isDealer p) roster) ! j"
  have "length (tablesBefore rnd roster n j) \<noteq> 0"
    unfolding tablesBefore_length by simp
  then have "tablesBefore rnd roster n j \<noteq> []" by simp
  then obtain t rest where s: "sort_key tableSize (tablesBefore rnd roster n j) = t # rest"
    and e: "seatNonDealer (tablesBefore rnd roster n j) ?p = pushPlayer (id_player ?p) t # rest"
    by (rule seatNonDealer_Cons)
  from sort_key_first_min [OF s] obtain before after where
    b: "tablesBefore rnd roster n j = before @ t # after" "\<forall>u \<in> set before. tableSize t < tableSize u"
    by blast
  have mn: "\<forall>u \<in> set (tablesBefore rnd roster n j). tableSize t \<le> tableSize u"
    using sort_key_Cons_min [OF s] by simp
  show ?thesis
    using s e b mn tablesBefore_Suc [OF assms, of n] by metis
qed

theorem seatNonDealer_smallest_witness:
  "3 < length (shuffle zeroRandom (filter (\<lambda>p. \<not> isDealer p) roster4)) \<and>
   sort_key tableSize (tablesBefore zeroRandom roster4 3 3) =
     \<lparr>id_table = 3, players_table = [''4'']\<rparr> #
     [\<lparr>id_table = 2, players_table = [''3'']\<rparr>, \<lparr>id_table = 1, players_table = [''2'']\<rparr>] \<and>
   tablesBefore zeroRandom roster4 3 (Suc 3) =
     pushPlayer ''1'' \<lparr>id_table = 3, players_table = [''4'']\<rparr> #
     [\<lparr>id_table = 2, players_table = [''3'']\<rparr>, \<lparr>id_table = 1, players_table = [''2'']\<rparr>]"
proof -
  have h: "3 < length (shuffle zeroRandom (filter (\<lambda>p. \<not> isDealer p) roster4))"
    by (simp add: shuffle_roster4)
  from seatNonDealer_smallest [OF h, of 3] obtain t rest where
    s: "sort_key tableSize (tablesBefore zeroRandom roster4 3 3) = t # rest" and
    e: "tablesBefore zeroRandom roster4 3 (Suc 3) =
          pushPlayer (id_player (shuffle zeroRandom (filter (\<lambda>p. \<not> isDealer p) roster4) ! 3)) t # rest"
    by blast
  have "sort_key tableSize (tablesBefore zeroRandom roster4 3 3) =
     \<lparr>id_table = 3, players_table = [''4'']\<rparr> #
     [\<lparr>id_table = 2, players_table = [''3'']\<rparr>, \<lparr>id_table = 1, players_table = [''2'']\<rparr>]"
    by (simp add: tablesBefore_roster4 tableSize_def)
  with s e h show ?thesis by (simp add: shuffle_roster4)
qed

text \<open>
  Claim C7 as stated fails for four players at three tables. Before the fourth player is
  seated the array holds the tables 3, 2, 1 in that order, each with one player; the
  player goes to table 3, not to table 1.
\<close>

theorem lowest_id_counterexample:
  "tablesBefore zeroRandom roster4 3 3 =
     [\<lparr>id_table = 3, players_table = [''4'']\<rparr>, \<lparr>id_table = 2, players_table = [''3'']\<rparr>,
      \<lparr>id_table = 1, players_table = [''2'']\<rparr>] \<and>
   tablesBefore zeroRandom roster4 3 4 =
     [\<lparr>id_table = 3, players_table = [''4'', ''1'']\<rparr>, \<lparr>id_table = 2, players_table = [''3'']\<rparr>,
      \<lparr>id_table = 1, players_table = [''2'']\<rparr>] \<and>
   smallestLowestId (tablesBefore zeroRandom roster4 3 3) \<lparr>id_table = 1, players_table = [''2'']\<rparr> \<and>
   \<not> smallestLowestId (tablesBefore zeroRandom roster4 3 3) \<lparr>id_table = 3, players_table = [''4'']\<rparr> \<and>
   drawTables zeroRandom roster4 3 =
     [\<lparr>id_table = 1, players_table = [''2'']\<rparr>, \<lparr>id_table = 2, players_table = [''3'']\<rparr>,
      \<lparr>id_table = 3, players_table = [''4'', ''1'']\<rparr>]"
  by (simp add: tablesBefore_roster4 drawTables_roster4 smallestLowestId_def tableSize_def)


section \<open>Properties of starting a round\<close>

text \<open>
  Claim C9, amended. With fewer than 2 checked-in players the button that starts the round
  is disabled: a click changes nothing, so no seating plan is drawn, no session is
  initialised and the phase is not set. No failure is reported; \<^verbatim>\<open>startRound\<close> itself has no
  test of the number of players.
\<close>

theorem clickStartRound_disabled:
  "card (checkedInIds app) < 2 \<Longrightarrow> clickStartRound rnd app = app"
  by (simp add: clickStartRound_def)

theorem clickStartRound_disabled_witness:
  "card (checkedInIds lonePlayerApp) < 2 \<and>
   clickStartRound zeroRandom lonePlayerApp = lonePlayerApp"
proof -
  have h: "card (checkedInIds lonePlayerApp) < 2" by (simp add: lonePlayerApp_def)
  from clickStartRound_disabled [OF h] h show ?thesis by simp
qed

lemma startRound_lonePlayerApp:
  "startRound zeroRandom lonePlayerApp =
     lonePlayerApp\<lparr>tables := [\<lparr>id_table = 1, players_table = [''1'']\<rparr>],
                   gameSessions := [newSession ''1''], gamePhase := REBUYS_OPEN,
                   activeTab := GAME\<rparr>"
  by code_simp

text \<open>
  Claim C9 as stated fails for \<^verbatim>\<open>startRound\<close>: called with one checked-in player it does not
  fail, it draws a table for the player, initialises the session and sets the phase.
\<close>

theorem startRound_unguarded_counterexample:
  "card (checkedInIds lonePlayerApp) < 2 \<and>
   startRound zeroRandom lonePlayerApp =
     lonePlayerApp\<lparr>tables := [\<lparr>id_table = 1, players_table = [''1'']\<rparr>],
                   gameSessions := [newSession ''1''], gamePhase := REBUYS_OPEN,
                   activeTab := GAME\<rparr> \<and>
   gameSessions (startRound zeroRandom lonePlayerApp) \<noteq> gameSessions lonePlayerApp \<and>
   tables (startRound zeroRandom lonePlayerApp) \<noteq> tables lonePlayerApp"
  unfolding startRound_lonePlayerApp by (simp add: lonePlayerApp_def)

end
